theory Spec2Isabelle
  imports Main "HOL-Library.Word" "HOL-Library.Signed_Division"
begin

unbundle bit_operations_syntax

section \<open>Data model\<close>

text \<open>
  Modelled from the spec: the values read by the dumper.  \<open>JasonSlice\<close> and \<open>JasonType\<close> are
  declared in \<open>JasonSlice.h\<close> and \<open>JasonType.h\<close>, which are not among the sources; the
  dumper uses \<open>type()\<close>, \<open>isType\<close>, \<open>length()\<close>, \<open>at(i)\<close>, \<open>keyAt(i)\<close>, \<open>valueAt(i)\<close>,
  \<open>getExternal()\<close> and one extractor for each scalar.  A value is a finite tree with one
  constructor for each tag the \<open>switch\<close> of \<open>internalDump\<close> names: an array holds its
  elements and an object its pairs of key and value in storage order, an External the slice
  it points to.  A double is carried as its 64-bit IEEE-754 pattern, an \<open>int64_t\<close> and a
  \<open>uint64_t\<close> as 64-bit words, a string as its bytes.
\<close>

datatype slice =
    JNone
  | JNull
  | JBool bool
  | JArray "slice list"
  | JObject "(slice \<times> slice) list"
  | JDouble "64 word"
  | JUTCDate "64 word"
  | JExternal slice
  | JMinKey
  | JMaxKey
  | JInt "64 word"
  | JUInt "64 word"
  | JSmallInt "64 word"
  | JString string
  | JBinary string
  | JBCD string
  | JCustom string

datatype JasonException = InternalError | InvalidUtf8Sequence | NoJsonEquivalent

datatype UnsupportedTypeStrategy = StrategyNullify | StrategyFail

text \<open>
  What is fixed during one dump: the template parameter \<open>PrettyPrint\<close>, the external
  \<open>fpconv_dtoa\<close> (given the bits of a finite double, the characters it writes), and the members
  \<open>_strategy\<close> and \<open>_callback\<close>.  The callback receives the buffer, the node and its parent
  (\<open>None\<close> for \<open>nullptr\<close>) and returns its verdict with the buffer as it left it.
\<close>

record dumper =
  PrettyPrint :: bool
  fpconv_dtoa :: "64 word \<Rightarrow> string"
  strategy :: UnsupportedTypeStrategy
  callback :: "(string \<Rightarrow> slice \<Rightarrow> slice option \<Rightarrow> bool \<times> string) option"

text \<open>
  What a dump changes: the bytes of \<open>_buffer\<close> and the member \<open>_indentation\<close>.  The latter
  is an \<open>int\<close> that every array and object entered in pretty mode increments by one; it is
  an integer here, and no document is nested deeply enough to overflow it.
\<close>

record state =
  buffer :: string
  indentation :: int

text \<open>A call either returns or throws; the state is the one at that moment.\<close>

datatype outcome = Returned state | Thrown JasonException state

definition push_back :: "char \<Rightarrow> state \<Rightarrow> state" where
  "push_back c st = st\<lparr>buffer := buffer st @ [c]\<rparr>"

definition append :: "string \<Rightarrow> state \<Rightarrow> state" where
  "append s st = st\<lparr>buffer := buffer st @ s\<rparr>"

section \<open>indent\<close>

text \<open>\<open>size_t n = _indentation\<close>: a negative \<open>int\<close> converts modulo \<open>2 ^ 64\<close>.\<close>

definition indent :: "state \<Rightarrow> state" where
  "indent st = append (concat (replicate (nat (indentation st mod 2 ^ 64)) ''  '')) st"

section \<open>handleUnsupportedType\<close>

definition handleUnsupportedType :: "dumper \<Rightarrow> state \<Rightarrow> outcome" where
  "handleUnsupportedType D st =
     (if strategy D = StrategyNullify then Returned (append ''null'' st)
      else Thrown NoJsonEquivalent st)"

section \<open>dumpInteger\<close>

text \<open>One line of the unsigned cascade: \<open>if (t <= v) push_back('0' + (v / t) % 10)\<close>.\<close>

definition emit_u :: "64 word \<Rightarrow> state \<Rightarrow> 64 word \<Rightarrow> state" where
  "emit_u v st t = (if t \<le> v then push_back (char_of (unat (48 + (v div t) mod 10))) st else st)"

text \<open>The same line on \<open>int64_t\<close>: division and remainder truncate towards zero.\<close>

definition emit_s :: "int \<Rightarrow> state \<Rightarrow> int \<Rightarrow> state" where
  "emit_s v st t = (if t \<le> v then push_back (char_of (48 + (v sdiv t) smod 10)) st else st)"

definition INT64_MIN :: int where
  "INT64_MIN = - 9223372036854775808"

fun dumpInteger :: "slice \<Rightarrow> state \<Rightarrow> outcome" where
  "dumpInteger (JUInt v) st =
     Returned (push_back (char_of (unat (48 + v mod 10)))
       (foldl (emit_u v) st
          [10000000000000000000, 1000000000000000000, 100000000000000000,
           10000000000000000, 1000000000000000, 100000000000000, 10000000000000,
           1000000000000, 100000000000, 10000000000, 1000000000, 100000000, 10000000,
           1000000, 100000, 10000, 1000, 100, 10]))"
| "dumpInteger (JInt w) st =
     (let v = sint w;
          st1 = (if v < 0 then push_back CHR ''-'' st else st)
      in if v = INT64_MIN then Returned (append ''9223372036854775808'' st1)
         else let v = - v
              in Returned (push_back (char_of (48 + v smod 10))
                   (foldl (emit_s v) st1
                      [1000000000000000000, 100000000000000000, 10000000000000000,
                       1000000000000000, 100000000000000, 10000000000000, 1000000000000,
                       100000000000, 10000000000, 1000000000, 100000000, 10000000,
                       1000000, 100000, 10000, 1000, 100, 10])))"
| "dumpInteger (JSmallInt w) st =
     (let v = sint w;
          (v, st1) = (if v < 0 then (- v, push_back CHR ''-'' st) else (v, st))
      in Returned (push_back (char_of (48 + v)) st1))"
| "dumpInteger _ st = Thrown InternalError st"

section \<open>dumpString\<close>

text \<open>
  The 256 entries of \<open>EscapeTable\<close>, sixteen to a row as in the source: \<open>0\<close> for a byte
  that is copied, otherwise the character that follows the backslash.
\<close>

definition EscapeTable :: "char list" where
  "EscapeTable = (let z = CHR 0x00 in
     [CHR ''u'', CHR ''u'', CHR ''u'', CHR ''u'', CHR ''u'', CHR ''u'', CHR ''u'', CHR ''u'', CHR ''b'', CHR ''t'', CHR ''n'', CHR ''u'', CHR ''f'', CHR ''r'', CHR ''u'', CHR ''u'',
      CHR ''u'', CHR ''u'', CHR ''u'', CHR ''u'', CHR ''u'', CHR ''u'', CHR ''u'', CHR ''u'', CHR ''u'', CHR ''u'', CHR ''u'', CHR ''u'', CHR ''u'', CHR ''u'', CHR ''u'', CHR ''u'',
      z, z, CHR 0x22, z, z, z, z, z, z, z, z, z, z, z, z, CHR ''/'',
      z, z, z, z, z, z, z, z, z, z, z, z, z, z, z, z,
      z, z, z, z, z, z, z, z, z, z, z, z, z, z, z, z,
      z, z, z, z, z, z, z, z, z, z, z, z, CHR 0x5C, z, z, z,
      z, z, z, z, z, z, z, z, z, z, z, z, z, z, z, z,
      z, z, z, z, z, z, z, z, z, z, z, z, z, z, z, z,
      z, z, z, z, z, z, z, z, z, z, z, z, z, z, z, z,
      z, z, z, z, z, z, z, z, z, z, z, z, z, z, z, z,
      z, z, z, z, z, z, z, z, z, z, z, z, z, z, z, z,
      z, z, z, z, z, z, z, z, z, z, z, z, z, z, z, z,
      z, z, z, z, z, z, z, z, z, z, z, z, z, z, z, z,
      z, z, z, z, z, z, z, z, z, z, z, z, z, z, z, z,
      z, z, z, z, z, z, z, z, z, z, z, z, z, z, z, z,
      z, z, z, z, z, z, z, z, z, z, z, z, z, z, z, z])"

text \<open>
  The scan of \<open>dumpString\<close> on the bytes from \<open>p\<close> up to \<open>e\<close>: \<open>p + k >= e\<close> holds when
  at most \<open>k\<close> bytes remain, and a sequence of \<open>k + 1\<close> bytes that is copied moves \<open>p\<close> past it.
\<close>

fun dumpString :: "string \<Rightarrow> state \<Rightarrow> outcome" where
  "dumpString [] st = Returned st"
| "dumpString (ch # rest) st =
     (let c = (of_char ch :: 8 word) in
      if c AND 0x80 = 0 then
        (let esc = EscapeTable ! unat c in
         if esc \<noteq> CHR 0x00 then
           (let st1 = push_back esc (push_back CHR 0x5C st) in
            if esc = CHR ''u'' then
              (let i1 = drop_bit 4 ((ucast c :: 16 word) AND 0xF0);
                   i2 = (ucast c :: 16 word) AND 0x0F;
                   st2 = append ''00'' st1;
                   st3 = push_back (if i1 < 10 then char_of (48 + unat i1)
                                    else char_of (65 + unat i1 - 10)) st2;
                   st4 = push_back (if i2 < 10 then char_of (48 + unat i2)
                                    else char_of (65 + unat i2 - 10)) st3
               in dumpString rest st4)
            else dumpString rest st1)
         else dumpString rest (push_back ch st))
      else if c AND 0xE0 = 0xC0 then
        (if length (ch # rest) \<le> 1 then Thrown InvalidUtf8Sequence st
         else dumpString (drop 1 rest) (append (take 2 (ch # rest)) st))
      else if c AND 0xF0 = 0xE0 then
        (if length (ch # rest) \<le> 2 then Thrown InvalidUtf8Sequence st
         else dumpString (drop 2 rest) (append (take 3 (ch # rest)) st))
      else if c AND 0xF8 = 0xF0 then
        (if length (ch # rest) \<le> 3 then Thrown InvalidUtf8Sequence st
         else dumpString (drop 3 rest) (append (take 4 (ch # rest)) st))
      else dumpString rest st)"

section \<open>internalDump\<close>

text \<open>
  \<open>std::isnan\<close> and \<open>std::isfinite\<close> of the standard library, on the bits of a double: a
  value is not finite when its exponent field is all ones, and not a number when moreover
  its fraction is not zero.
\<close>

definition isnan :: "64 word \<Rightarrow> bool" where
  "isnan v = (v AND 0x7FF0000000000000 = 0x7FF0000000000000 \<and> v AND 0x000FFFFFFFFFFFFF \<noteq> 0)"

definition isfinite :: "64 word \<Rightarrow> bool" where
  "isfinite v = (v AND 0x7FF0000000000000 \<noteq> 0x7FF0000000000000)"

text \<open>\<open>_callback && _callback(_buffer, slice, parent)\<close>: the verdict and the state left.\<close>

definition run_callback :: "dumper \<Rightarrow> slice \<Rightarrow> slice option \<Rightarrow> state \<Rightarrow> bool \<times> state" where
  "run_callback D s parent st =
     (case callback D of
        None \<Rightarrow> (False, st)
      | Some cb \<Rightarrow> (case cb (buffer st) s parent of (handled, b) \<Rightarrow> (handled, st\<lparr>buffer := b\<rparr>)))"

text \<open>
  \<open>internalDump\<close> is the callback test followed by the \<open>switch\<close> on the type, here
  \<open>dumpByType\<close>.  The four loops over the children run on the children still to come, with the
  index \<open>i\<close> and the length \<open>n\<close> of the source.
\<close>

function (sequential) internalDump :: "dumper \<Rightarrow> slice \<Rightarrow> slice option \<Rightarrow> state \<Rightarrow> outcome"
and dumpByType :: "dumper \<Rightarrow> slice \<Rightarrow> state \<Rightarrow> outcome"
and arrayPretty :: "dumper \<Rightarrow> slice \<Rightarrow> slice list \<Rightarrow> nat \<Rightarrow> nat \<Rightarrow> state \<Rightarrow> outcome"
and arrayCompact :: "dumper \<Rightarrow> slice \<Rightarrow> slice list \<Rightarrow> nat \<Rightarrow> nat \<Rightarrow> state \<Rightarrow> outcome"
and objectPretty :: "dumper \<Rightarrow> slice \<Rightarrow> (slice \<times> slice) list \<Rightarrow> nat \<Rightarrow> nat \<Rightarrow> state \<Rightarrow> outcome"
and objectCompact :: "dumper \<Rightarrow> slice \<Rightarrow> (slice \<times> slice) list \<Rightarrow> nat \<Rightarrow> nat \<Rightarrow> state \<Rightarrow> outcome"
where
  "internalDump D s parent st =
     (case run_callback D s parent st of
        (True, st1) \<Rightarrow> Returned st1
      | (False, st1) \<Rightarrow> dumpByType D s st1)"
| "dumpByType D JNone st = handleUnsupportedType D st"
| "dumpByType D JNull st = Returned (append ''null'' st)"
| "dumpByType D (JBool b) st =
     (if b then Returned (append ''true'' st) else Returned (append ''false'' st))"
| "dumpByType D (JArray xs) st =
     (let n = length xs in
      if PrettyPrint D then
        (case arrayPretty D (JArray xs) xs 0 n
                (push_back CHR 0x0A (push_back CHR ''['' st)\<lparr>indentation := indentation st + 1\<rparr>) of
           Thrown e st1 \<Rightarrow> Thrown e st1
         | Returned st1 \<Rightarrow>
             Returned (push_back CHR '']'' (indent (st1\<lparr>indentation := indentation st1 - 1\<rparr>))))
      else
        (case arrayCompact D (JArray xs) xs 0 n (push_back CHR ''['' st) of
           Thrown e st1 \<Rightarrow> Thrown e st1
         | Returned st1 \<Rightarrow> Returned (push_back CHR '']'' st1)))"
| "dumpByType D (JObject kvs) st =
     (let n = length kvs in
      if PrettyPrint D then
        (case objectPretty D (JObject kvs) kvs 0 n
                (push_back CHR 0x0A (push_back CHR ''{'' st)\<lparr>indentation := indentation st + 1\<rparr>) of
           Thrown e st1 \<Rightarrow> Thrown e st1
         | Returned st1 \<Rightarrow>
             Returned (push_back CHR ''}'' (indent (st1\<lparr>indentation := indentation st1 - 1\<rparr>))))
      else
        (case objectCompact D (JObject kvs) kvs 0 n (push_back CHR ''{'' st) of
           Thrown e st1 \<Rightarrow> Thrown e st1
         | Returned st1 \<Rightarrow> Returned (push_back CHR ''}'' st1)))"
| "dumpByType D (JDouble v) st =
     (if isnan v \<or> \<not> isfinite v then handleUnsupportedType D st
      else Returned (append (fpconv_dtoa D v) st))"
| "dumpByType D (JUTCDate v) st = handleUnsupportedType D st"
| "dumpByType D (JExternal ext) st = internalDump D ext None st"
| "dumpByType D JMinKey st = handleUnsupportedType D st"
| "dumpByType D JMaxKey st = handleUnsupportedType D st"
| "dumpByType D (JInt v) st = dumpInteger (JInt v) st"
| "dumpByType D (JUInt v) st = dumpInteger (JUInt v) st"
| "dumpByType D (JSmallInt v) st = dumpInteger (JSmallInt v) st"
| "dumpByType D (JString p) st =
     (case dumpString p (push_back CHR 0x22 st) of
        Thrown e st1 \<Rightarrow> Thrown e st1
      | Returned st1 \<Rightarrow> Returned (push_back CHR 0x22 st1))"
| "dumpByType D (JBinary b) st = handleUnsupportedType D st"
| "dumpByType D (JBCD b) st = handleUnsupportedType D st"
| "dumpByType D (JCustom b) st = handleUnsupportedType D st"
| "arrayPretty D parent [] i n st = Returned st"
| "arrayPretty D parent (x # xs) i n st =
     (case internalDump D x (Some parent) (indent st) of
        Thrown e st1 \<Rightarrow> Thrown e st1
      | Returned st1 \<Rightarrow>
          arrayPretty D parent xs (i + 1) n
            (push_back CHR 0x0A (if i + 1 \<noteq> n then push_back CHR '','' st1 else st1)))"
| "arrayCompact D parent [] i n st = Returned st"
| "arrayCompact D parent (x # xs) i n st =
     (case internalDump D x (Some parent) (if i > 0 then push_back CHR '','' st else st) of
        Thrown e st1 \<Rightarrow> Thrown e st1
      | Returned st1 \<Rightarrow> arrayCompact D parent xs (i + 1) n st1)"
| "objectPretty D parent [] i n st = Returned st"
| "objectPretty D parent (kv # kvs) i n st =
     (case internalDump D (fst kv) (Some parent) (indent st) of
        Thrown e st1 \<Rightarrow> Thrown e st1
      | Returned st1 \<Rightarrow>
          (case internalDump D (snd kv) (Some parent) (append '' : '' st1) of
             Thrown e st2 \<Rightarrow> Thrown e st2
           | Returned st2 \<Rightarrow>
               objectPretty D parent kvs (i + 1) n
                 (push_back CHR 0x0A (if i + 1 \<noteq> n then push_back CHR '','' st2 else st2))))"
| "objectCompact D parent [] i n st = Returned st"
| "objectCompact D parent (kv # kvs) i n st =
     (case internalDump D (fst kv) (Some parent) (if i > 0 then push_back CHR '','' st else st) of
        Thrown e st1 \<Rightarrow> Thrown e st1
      | Returned st1 \<Rightarrow>
          (case internalDump D (snd kv) (Some parent) (push_back CHR '':'' st1) of
             Thrown e st2 \<Rightarrow> Thrown e st2
           | Returned st2 \<Rightarrow> objectCompact D parent kvs (i + 1) n st2))"

  by pat_completeness auto

termination
  by (relation "measure (\<lambda>x. case x of
        Inl (Inl (D, s, parent, st)) \<Rightarrow> 2 * size s + 1
      | Inl (Inr (Inl (D, s, st))) \<Rightarrow> 2 * size s
      | Inl (Inr (Inr (D, parent, xs, i, n, st))) \<Rightarrow> 2 * size_list size xs + 1
      | Inr (Inl (D, parent, xs, i, n, st)) \<Rightarrow> 2 * size_list size xs + 1
      | Inr (Inr (Inl (D, parent, kvs, i, n, st))) \<Rightarrow> 2 * size_list (\<lambda>x. Suc (size (fst x) + size (snd x))) kvs + 1
      | Inr (Inr (Inr (D, parent, kvs, i, n, st))) \<Rightarrow> 2 * size_list (\<lambda>x. Suc (size (fst x) + size (snd x))) kvs + 1)")
    (auto simp: size_prod_simp)

text \<open>\<open>dump\<close> resets the indentation and starts at the root, with no parent.\<close>

definition dump :: "dumper \<Rightarrow> slice \<Rightarrow> state \<Rightarrow> outcome" where
  "dump D s st = internalDump D s None (st\<lparr>indentation := 0\<rparr>)"

section \<open>Reference notions\<close>

text \<open>The values the unsupported-type policy is invoked for, by tag and, for a double, by class.\<close>

definition isinf :: "64 word \<Rightarrow> bool" where
  "isinf v = (v AND 0x7FF0000000000000 = 0x7FF0000000000000 \<and> v AND 0x000FFFFFFFFFFFFF = 0)"

fun unrepresentable :: "slice \<Rightarrow> bool" where
  "unrepresentable JNone = True"
| "unrepresentable (JUTCDate v) = True"
| "unrepresentable (JBinary b) = True"
| "unrepresentable JMinKey = True"
| "unrepresentable JMaxKey = True"
| "unrepresentable (JBCD b) = True"
| "unrepresentable (JCustom b) = True"
| "unrepresentable (JDouble v) = (isnan v \<or> isinf v)"
| "unrepresentable _ = False"

text \<open>The classes of a byte by its value: the length of the UTF-8 sequence a lead byte
  announces (\<open>0\<close> when it is none), and the bytes that are neither ASCII nor a lead byte.\<close>

definition utf8_lead :: "char \<Rightarrow> nat" where
  "utf8_lead ch = (let n = (of_char ch :: nat) in
     if 0xC0 \<le> n \<and> n \<le> 0xDF then 2
     else if 0xE0 \<le> n \<and> n \<le> 0xEF then 3
     else if 0xF0 \<le> n \<and> n \<le> 0xF7 then 4
     else 0)"

definition stray_byte :: "char \<Rightarrow> bool" where
  "stray_byte ch = (let n = (of_char ch :: nat) in
     (0x80 \<le> n \<and> n \<le> 0xBF) \<or> (0xF8 \<le> n \<and> n \<le> 0xFF))"

text \<open>The JSON escape of an ASCII byte: a short escape, \<open>\u00XX\<close> in upper-case
  hexadecimal for the other control codes, the byte itself otherwise.\<close>

definition hex_upper :: "nat \<Rightarrow> char" where
  "hex_upper d = ''0123456789ABCDEF'' ! d"

definition short_escape :: "char \<Rightarrow> char option" where
  "short_escape ch =
     (if ch = CHR 0x08 then Some CHR ''b''
      else if ch = CHR 0x09 then Some CHR ''t''
      else if ch = CHR 0x0A then Some CHR ''n''
      else if ch = CHR 0x0C then Some CHR ''f''
      else if ch = CHR 0x0D then Some CHR ''r''
      else if ch = CHR 0x22 then Some CHR 0x22
      else if ch = CHR 0x5C then Some CHR 0x5C
      else if ch = CHR ''/'' then Some CHR ''/''
      else None)"

definition json_escape :: "char \<Rightarrow> string" where
  "json_escape ch =
     (case short_escape ch of
        Some e \<Rightarrow> [CHR 0x5C, e]
      | None \<Rightarrow>
          if (of_char ch :: nat) < 0x20
          then [CHR 0x5C, CHR ''u'', CHR ''0'', CHR ''0'',
                hex_upper (of_char ch div 16), hex_upper (of_char ch mod 16)]
          else [ch])"

text \<open>What one step of the scan does with a byte: as the tests and the table of
  \<open>dumpString\<close> decide it (\<open>classify\<close>), and as the byte's value says (\<open>spec_class\<close>).\<close>

datatype byte_class = Ascii string | Lead nat | Stray

definition classify :: "char \<Rightarrow> byte_class" where
  "classify ch =
     (let c = (of_char ch :: 8 word) in
      if c AND 0x80 = 0 then
        Ascii (let esc = EscapeTable ! unat c in
         if esc \<noteq> CHR 0x00 then
           [CHR 0x5C, esc] @
            (if esc = CHR ''u'' then
              (let i1 = drop_bit 4 ((ucast c :: 16 word) AND 0xF0);
                   i2 = (ucast c :: 16 word) AND 0x0F
               in ''00'' @ [if i1 < 10 then char_of (48 + unat i1) else char_of (65 + unat i1 - 10),
                        if i2 < 10 then char_of (48 + unat i2) else char_of (65 + unat i2 - 10)])
             else [])
         else [ch])
      else if c AND 0xE0 = 0xC0 then Lead 2
      else if c AND 0xF0 = 0xE0 then Lead 3
      else if c AND 0xF8 = 0xF0 then Lead 4
      else Stray)"

definition spec_class :: "char \<Rightarrow> byte_class" where
  "spec_class ch =
     (if (of_char ch :: nat) < 0x80 then Ascii (json_escape ch)
      else if utf8_lead ch \<noteq> 0 then Lead (utf8_lead ch)
      else Stray)"

text \<open>The decimal representation of a natural number: no leading zero, most significant
  digit first.\<close>

definition digit_char :: "nat \<Rightarrow> char" where
  "digit_char d = ''0123456789'' ! d"

fun decimal :: "nat \<Rightarrow> string" where
  "decimal n = (if n < 10 then [digit_char n] else decimal (n div 10) @ [digit_char (n mod 10)])"

text \<open>One line of the cascade on natural numbers, and the lines for \<open>10 ^ (k - 1)\<close> down to
  \<open>10\<close>.\<close>

definition dig :: "nat \<Rightarrow> nat \<Rightarrow> string" where
  "dig n t = (if t \<le> n then [digit_char (n div t mod 10)] else [])"

definition cascade :: "nat \<Rightarrow> nat \<Rightarrow> string" where
  "cascade k n = concat (map (\<lambda>i. dig n (10 ^ i)) (rev [1..<k]))"

text \<open>
  The empty state, and an outcome on the empty state carried over to a state: what a dump
  that only appends does on any state.
\<close>

definition emp :: state where
  "emp = \<lparr>buffer = [], indentation = 0\<rparr>"

fun lift :: "state \<Rightarrow> outcome \<Rightarrow> outcome" where
  "lift st (Returned e) = Returned (append (buffer e) st)"
| "lift st (Thrown x e) = Thrown x (append (buffer e) st)"

text \<open>What one line of the signed cascade appends.\<close>

definition sdig :: "int \<Rightarrow> int \<Rightarrow> string" where
  "sdig v t = (if t \<le> v then [char_of (48 + (v sdiv t) smod 10)] else [])"

text \<open>
  The layout of a document, with no callback set.  A value that is neither an array, an
  object nor an External is rendered as the dump renders it on its own (\<open>leaf_text\<close>, \<open>None\<close>
  when that throws).  Compact: the elements with a comma between them, a colon between key
  and value, no white space.  Pretty: after the opening bracket and a newline, one element a
  line, indented by two spaces for each level, a comma after each but the last, \<open>" : "\<close>
  between key and value, and the closing bracket at the indentation of the parent.
\<close>

definition leaf_text :: "dumper \<Rightarrow> slice \<Rightarrow> string option" where
  "leaf_text D s = (case dumpByType D s emp of Returned e \<Rightarrow> Some (buffer e) | Thrown x e \<Rightarrow> None)"

definition indent_text :: "nat \<Rightarrow> string" where
  "indent_text d = concat (replicate d ''  '')"

fun separated :: "string list \<Rightarrow> string" where
  "separated [] = []"
| "separated (t # ts) = t @ concat (map (\<lambda>u. '','' @ u) ts)"

fun lines_pretty :: "nat \<Rightarrow> string list \<Rightarrow> string" where
  "lines_pretty d [] = []"
| "lines_pretty d [t] = indent_text d @ t @ [CHR 0x0A]"
| "lines_pretty d (t # u # ts) = indent_text d @ t @ '','' @ [CHR 0x0A] @ lines_pretty d (u # ts)"

definition enclose :: "bool \<Rightarrow> nat \<Rightarrow> char \<Rightarrow> char \<Rightarrow> string list \<Rightarrow> string" where
  "enclose pretty d l r ts =
     (if pretty then [l, CHR 0x0A] @ lines_pretty (d + 1) ts @ indent_text d @ [r]
      else [l] @ separated ts @ [r])"

function (sequential) layout :: "dumper \<Rightarrow> nat \<Rightarrow> slice \<Rightarrow> string option"
and layouts :: "dumper \<Rightarrow> nat \<Rightarrow> slice list \<Rightarrow> string list option"
and members :: "dumper \<Rightarrow> nat \<Rightarrow> (slice \<times> slice) list \<Rightarrow> string list option"
where
  "layout D d (JArray xs) =
     map_option (enclose (PrettyPrint D) d CHR ''['' CHR '']'')
       (layouts D (if PrettyPrint D then d + 1 else d) xs)"
| "layout D d (JObject kvs) =
     map_option (enclose (PrettyPrint D) d CHR ''{'' CHR ''}'')
       (members D (if PrettyPrint D then d + 1 else d) kvs)"
| "layout D d (JExternal ext) = layout D d ext"
| "layout D d s = leaf_text D s"
| "layouts D d [] = Some []"
| "layouts D d (x # xs) =
     (case layout D d x of
        None \<Rightarrow> None
      | Some t \<Rightarrow> map_option ((#) t) (layouts D d xs))"
| "members D d [] = Some []"
| "members D d ((k, v) # kvs) =
     (case layout D d k of
        None \<Rightarrow> None
      | Some tk \<Rightarrow>
          (case layout D d v of
             None \<Rightarrow> None
           | Some tv \<Rightarrow>
               map_option ((#) (tk @ (if PrettyPrint D then '' : '' else '':'') @ tv))
                 (members D d kvs)))"
  by pat_completeness auto

termination
  by (relation "measure (\<lambda>x. case x of
        Inl (D, d, s) \<Rightarrow> size s
      | Inr (Inl (D, d, xs)) \<Rightarrow> size_list size xs
      | Inr (Inr (D, d, kvs)) \<Rightarrow> size_list (size_prod size size) kvs)")
    auto

text \<open>How deeply arrays and objects are nested in a value.\<close>

function (sequential) depth :: "slice \<Rightarrow> nat"
and depth_list :: "slice list \<Rightarrow> nat"
and depth_members :: "(slice \<times> slice) list \<Rightarrow> nat"
where
  "depth (JArray xs) = Suc (depth_list xs)"
| "depth (JObject kvs) = Suc (depth_members kvs)"
| "depth (JExternal ext) = depth ext"
| "depth s = 0"
| "depth_list [] = 0"
| "depth_list (x # xs) = max (depth x) (depth_list xs)"
| "depth_members [] = 0"
| "depth_members ((k, v) # kvs) = max (max (depth k) (depth v)) (depth_members kvs)"
  by pat_completeness auto

termination
  by (relation "measure (\<lambda>x. case x of
        Inl s \<Rightarrow> size s
      | Inr (Inl xs) \<Rightarrow> size_list size xs
      | Inr (Inr kvs) \<Rightarrow> size_list (size_prod size size) kvs)")
    auto

text \<open>
  The traversal once more, with the calls of the callback recorded: each call is kept with
  the buffer, the node and the parent it was given, in the order the calls are made.  The
  dump itself is the one above; values that are neither arrays, objects nor Externals make no
  further call.
\<close>

type_synonym hook_call = "string \<times> slice \<times> slice option"

definition run_callbackT ::
  "dumper \<Rightarrow> slice \<Rightarrow> slice option \<Rightarrow> state \<Rightarrow> (bool \<times> state) \<times> hook_call list" where
  "run_callbackT D s parent st =
     (case callback D of
        None \<Rightarrow> ((False, st), [])
      | Some cb \<Rightarrow>
          (case cb (buffer st) s parent of
             (handled, b) \<Rightarrow> ((handled, st\<lparr>buffer := b\<rparr>), [(buffer st, s, parent)])))"

function (sequential)
    internalDumpT :: "dumper \<Rightarrow> slice \<Rightarrow> slice option \<Rightarrow> state \<Rightarrow> outcome \<times> hook_call list"
and dumpByTypeT :: "dumper \<Rightarrow> slice \<Rightarrow> state \<Rightarrow> outcome \<times> hook_call list"
and arrayPrettyT ::
      "dumper \<Rightarrow> slice \<Rightarrow> slice list \<Rightarrow> nat \<Rightarrow> nat \<Rightarrow> state \<Rightarrow> outcome \<times> hook_call list"
and arrayCompactT ::
      "dumper \<Rightarrow> slice \<Rightarrow> slice list \<Rightarrow> nat \<Rightarrow> nat \<Rightarrow> state \<Rightarrow> outcome \<times> hook_call list"
and objectPrettyT ::
      "dumper \<Rightarrow> slice \<Rightarrow> (slice \<times> slice) list \<Rightarrow> nat \<Rightarrow> nat \<Rightarrow> state
         \<Rightarrow> outcome \<times> hook_call list"
and objectCompactT ::
      "dumper \<Rightarrow> slice \<Rightarrow> (slice \<times> slice) list \<Rightarrow> nat \<Rightarrow> nat \<Rightarrow> state
         \<Rightarrow> outcome \<times> hook_call list"
where
  "internalDumpT D s parent st =
     (case run_callbackT D s parent st of
        ((True, st1), tr) \<Rightarrow> (Returned st1, tr)
      | ((False, st1), tr) \<Rightarrow>
          (case dumpByTypeT D s st1 of (out, tr1) \<Rightarrow> (out, tr @ tr1)))"
| "dumpByTypeT D (JArray xs) st =
     (let n = length xs in
      if PrettyPrint D then
        (case arrayPrettyT D (JArray xs) xs 0 n
                (push_back CHR 0x0A (push_back CHR ''['' st)\<lparr>indentation := indentation st + 1\<rparr>) of
           (Thrown e st1, tr) \<Rightarrow> (Thrown e st1, tr)
         | (Returned st1, tr) \<Rightarrow>
             (Returned (push_back CHR '']'' (indent (st1\<lparr>indentation := indentation st1 - 1\<rparr>))),
              tr))
      else
        (case arrayCompactT D (JArray xs) xs 0 n (push_back CHR ''['' st) of
           (Thrown e st1, tr) \<Rightarrow> (Thrown e st1, tr)
         | (Returned st1, tr) \<Rightarrow> (Returned (push_back CHR '']'' st1), tr)))"
| "dumpByTypeT D (JObject kvs) st =
     (let n = length kvs in
      if PrettyPrint D then
        (case objectPrettyT D (JObject kvs) kvs 0 n
                (push_back CHR 0x0A (push_back CHR ''{'' st)\<lparr>indentation := indentation st + 1\<rparr>) of
           (Thrown e st1, tr) \<Rightarrow> (Thrown e st1, tr)
         | (Returned st1, tr) \<Rightarrow>
             (Returned (push_back CHR ''}'' (indent (st1\<lparr>indentation := indentation st1 - 1\<rparr>))),
              tr))
      else
        (case objectCompactT D (JObject kvs) kvs 0 n (push_back CHR ''{'' st) of
           (Thrown e st1, tr) \<Rightarrow> (Thrown e st1, tr)
         | (Returned st1, tr) \<Rightarrow> (Returned (push_back CHR ''}'' st1), tr)))"
| "dumpByTypeT D (JExternal ext) st = internalDumpT D ext None st"
| "dumpByTypeT D s st = (dumpByType D s st, [])"
| "arrayPrettyT D parent [] i n st = (Returned st, [])"
| "arrayPrettyT D parent (x # xs) i n st =
     (case internalDumpT D x (Some parent) (indent st) of
        (Thrown e st1, tr) \<Rightarrow> (Thrown e st1, tr)
      | (Returned st1, tr) \<Rightarrow>
          (case arrayPrettyT D parent xs (i + 1) n
                  (push_back CHR 0x0A (if i + 1 \<noteq> n then push_back CHR '','' st1 else st1)) of
             (out, tr1) \<Rightarrow> (out, tr @ tr1)))"
| "arrayCompactT D parent [] i n st = (Returned st, [])"
| "arrayCompactT D parent (x # xs) i n st =
     (case internalDumpT D x (Some parent) (if i > 0 then push_back CHR '','' st else st) of
        (Thrown e st1, tr) \<Rightarrow> (Thrown e st1, tr)
      | (Returned st1, tr) \<Rightarrow>
          (case arrayCompactT D parent xs (i + 1) n st1 of (out, tr1) \<Rightarrow> (out, tr @ tr1)))"
| "objectPrettyT D parent [] i n st = (Returned st, [])"
| "objectPrettyT D parent (kv # kvs) i n st =
     (case internalDumpT D (fst kv) (Some parent) (indent st) of
        (Thrown e st1, tr) \<Rightarrow> (Thrown e st1, tr)
      | (Returned st1, tr) \<Rightarrow>
          (case internalDumpT D (snd kv) (Some parent) (append '' : '' st1) of
             (Thrown e st2, tr1) \<Rightarrow> (Thrown e st2, tr @ tr1)
           | (Returned st2, tr1) \<Rightarrow>
               (case objectPrettyT D parent kvs (i + 1) n
                       (push_back CHR 0x0A (if i + 1 \<noteq> n then push_back CHR '','' st2 else st2)) of
                  (out, tr2) \<Rightarrow> (out, tr @ tr1 @ tr2))))"
| "objectCompactT D parent [] i n st = (Returned st, [])"
| "objectCompactT D parent (kv # kvs) i n st =
     (case internalDumpT D (fst kv) (Some parent) (if i > 0 then push_back CHR '','' st else st) of
        (Thrown e st1, tr) \<Rightarrow> (Thrown e st1, tr)
      | (Returned st1, tr) \<Rightarrow>
          (case internalDumpT D (snd kv) (Some parent) (push_back CHR '':'' st1) of
             (Thrown e st2, tr1) \<Rightarrow> (Thrown e st2, tr @ tr1)
           | (Returned st2, tr1) \<Rightarrow>
               (case objectCompactT D parent kvs (i + 1) n st2 of
                  (out, tr2) \<Rightarrow> (out, tr @ tr1 @ tr2))))"
  by pat_completeness auto

termination
  by (relation "measure (\<lambda>x. case x of
        Inl (Inl (D, s, parent, st)) \<Rightarrow> 2 * size s + 1
      | Inl (Inr (Inl (D, s, st))) \<Rightarrow> 2 * size s
      | Inl (Inr (Inr (D, parent, xs, i, n, st))) \<Rightarrow> 2 * size_list size xs + 1
      | Inr (Inl (D, parent, xs, i, n, st)) \<Rightarrow> 2 * size_list size xs + 1
      | Inr (Inr (Inl (D, parent, kvs, i, n, st))) \<Rightarrow>
          2 * size_list (\<lambda>x. Suc (size (fst x) + size (snd x))) kvs + 1
      | Inr (Inr (Inr (D, parent, kvs, i, n, st))) \<Rightarrow>
          2 * size_list (\<lambda>x. Suc (size (fst x) + size (snd x))) kvs + 1)")
    (auto simp: size_prod_simp)

text \<open>
  The nodes of a document in the order a depth-first, pre-order walk reaches them, each with
  its parent: the array or object that holds it, nothing at the root and nothing for the
  slice an External points to.  The walk does not go below a node for which \<open>h\<close> holds.
\<close>

function (sequential)
    visits :: "(slice \<Rightarrow> slice option \<Rightarrow> bool) \<Rightarrow> slice \<Rightarrow> slice option \<Rightarrow> (slice \<times> slice option) list"
and below :: "(slice \<Rightarrow> slice option \<Rightarrow> bool) \<Rightarrow> slice \<Rightarrow> (slice \<times> slice option) list"
and visits_list ::
      "(slice \<Rightarrow> slice option \<Rightarrow> bool) \<Rightarrow> slice option \<Rightarrow> slice list \<Rightarrow> (slice \<times> slice option) list"
and visits_members ::
      "(slice \<Rightarrow> slice option \<Rightarrow> bool) \<Rightarrow> slice option \<Rightarrow> (slice \<times> slice) list
         \<Rightarrow> (slice \<times> slice option) list"
where
  "visits h s parent = (s, parent) # (if h s parent then [] else below h s)"
| "below h (JArray xs) = visits_list h (Some (JArray xs)) xs"
| "below h (JObject kvs) = visits_members h (Some (JObject kvs)) kvs"
| "below h (JExternal ext) = visits h ext None"
| "below h s = []"
| "visits_list h parent [] = []"
| "visits_list h parent (x # xs) = visits h x parent @ visits_list h parent xs"
| "visits_members h parent [] = []"
| "visits_members h parent ((k, v) # kvs) =
     visits h k parent @ visits h v parent @ visits_members h parent kvs"
  by pat_completeness auto

termination
  by (relation "measure (\<lambda>x. case x of
        Inl (Inl (h, s, parent)) \<Rightarrow> 2 * size s + 1
      | Inl (Inr (h, s)) \<Rightarrow> 2 * size s
      | Inr (Inl (h, parent, xs)) \<Rightarrow> 2 * size_list size xs + 1
      | Inr (Inr (h, parent, kvs)) \<Rightarrow> 2 * size_list (size_prod size size) kvs + 1)")
    auto

section \<open>The string escaper, byte by byte\<close>

lemma all_chars: "list_all P (map char_of [0..<256::nat]) \<Longrightarrow> P ch"
proof -
  assume a: "list_all P (map char_of [0..<256::nat])"
  have "ch \<in> char_of ` {0::nat..<256}" using UNIV_char_of_nat by blast
  then have "ch \<in> set (map char_of [0..<256::nat])" by simp
  then show "P ch" using a by (simp only: list_all_iff)
qed

lemma classify_table:
  "list_all (\<lambda>ch. classify ch = spec_class ch) (map char_of [0..<256::nat])"
  by code_simp

lemma classify_spec: "classify ch = spec_class ch"
  by (rule all_chars [where P = "\<lambda>ch. classify ch = spec_class ch"]) (rule classify_table)

lemma dumpString_step:
  "dumpString (ch # rest) st =
     (case classify ch of
        Ascii out \<Rightarrow> dumpString rest (append out st)
      | Lead k \<Rightarrow> if length (ch # rest) < k then Thrown InvalidUtf8Sequence st
                  else dumpString (drop k (ch # rest)) (append (take k (ch # rest)) st)
      | Stray \<Rightarrow> dumpString rest st)"
  by (simp add: classify_def Let_def push_back_def append_def)

lemma stray_iff: "stray_byte ch \<longleftrightarrow> \<not> (of_char ch :: nat) < 0x80 \<and> utf8_lead ch = 0"
  using nat_of_char_less_256 [of ch]
  by (auto simp: stray_byte_def utf8_lead_def Let_def simp del: nat_of_char_less_256)

text \<open>
  A byte that is neither ASCII nor a lead byte of a 2-, 3- or 4-byte sequence (\<open>0x80\<close> to
  \<open>0xBF\<close>, \<open>0xF8\<close> to \<open>0xFF\<close>) matches none of the four tests of the scan, and the chain of
  tests has no final \<open>else\<close>: nothing is appended for it, and the scan goes on with the next
  byte.
\<close>

lemma stray_byte_skipped:
  assumes "stray_byte ch"
  shows "dumpString (ch # rest) st = dumpString rest st"
  using assms
  by (simp add: dumpString_step classify_spec spec_class_def stray_iff del: dumpString.simps)

text \<open>
  C2 fails on the code.  A byte that is neither ASCII nor a lead byte is to be copied to the
  output as it is, as every other branch of the scan does with the bytes it consumes; the scan
  drops it instead.  The string \<open>a\<close>, \<open>0x80\<close>, \<open>b\<close> is dumped as \<open>ab\<close>, and the lone byte
  \<open>0xFF\<close> as nothing.
\<close>

theorem stray_byte_dropped:
  "dumpString [CHR ''a'', CHR 0x80, CHR ''b''] \<lparr>buffer = [], indentation = 0\<rparr>
     = Returned \<lparr>buffer = ''ab'', indentation = 0\<rparr>
   \<and> dumpString [CHR 0xFF] \<lparr>buffer = [], indentation = 0\<rparr>
     = Returned \<lparr>buffer = [], indentation = 0\<rparr>"
  by code_simp

text \<open>
  C4.  At a lead byte of a \<open>k\<close>-byte sequence (\<open>k\<close> is 2, 3 or 4) the scan throws the
  invalid-encoding error when fewer than \<open>k\<close> bytes remain, and leaves the buffer as it was;
  otherwise it appends the \<open>k\<close> bytes as they are, whatever the \<open>k - 1\<close> bytes after the lead
  byte hold, and goes on after them.
\<close>

theorem truncated_lead_byte:
  assumes "utf8_lead ch = k" and "k \<noteq> 0"
  shows "dumpString (ch # rest) st =
           (if length (ch # rest) < k then Thrown InvalidUtf8Sequence st
            else dumpString (drop k (ch # rest))
                   (st\<lparr>buffer := buffer st @ take k (ch # rest)\<rparr>))"
proof -
  have "\<not> (of_char ch :: nat) < 0x80"
    using assms by (auto simp: utf8_lead_def Let_def split: if_splits)
  then have "classify ch = Lead k"
    using assms by (simp add: classify_spec spec_class_def)
  then show ?thesis
    by (simp add: dumpString_step append_def del: dumpString.simps)
qed

theorem truncated_lead_byte_witness:
  "utf8_lead (CHR 0xE2) = 3 \<and> (3::nat) \<noteq> 0 \<and>
   dumpString [CHR 0xE2, CHR 0x82] \<lparr>buffer = ''a'', indentation = 0\<rparr>
     = Thrown InvalidUtf8Sequence \<lparr>buffer = ''a'', indentation = 0\<rparr>"
proof -
  have a: "utf8_lead (CHR 0xE2) = 3" by (simp add: utf8_lead_def)
  have b: "(3::nat) \<noteq> 0" by simp
  from truncated_lead_byte [OF a b, of "[CHR 0x82]" "\<lparr>buffer = ''a'', indentation = 0\<rparr>"] a b
  show ?thesis by simp
qed




section \<open>The unsupported-type policy\<close>

lemma nonfinite_iff: "(isnan v \<or> \<not> isfinite v) = (isnan v \<or> isinf v)"
  by (auto simp: isnan_def isfinite_def isinf_def)

text \<open>
  C3.  For a node the policy is invoked for (None, UTCDate, Binary, MinKey, MaxKey, BCD,
  Custom, and a Double that is NaN or infinite) that the callback has not taken over: with
  \<open>StrategyNullify\<close> the dump appends \<open>null\<close>, with \<open>StrategyFail\<close> it throws
  \<open>NoJsonEquivalent\<close> and appends nothing.
\<close>

theorem unsupported_policy:
  assumes "unrepresentable s" and "run_callback D s parent st = (False, st1)"
  shows "internalDump D s parent st =
           (case strategy D of
              StrategyNullify \<Rightarrow> Returned (st1\<lparr>buffer := buffer st1 @ ''null''\<rparr>)
            | StrategyFail \<Rightarrow> Thrown NoJsonEquivalent st1)"
  using assms
  by (cases s; cases "strategy D")
     (simp_all add: handleUnsupportedType_def append_def nonfinite_iff)

theorem unsupported_policy_witness:
  "unrepresentable (JDouble 0x7FF0000000000000) \<and>
   run_callback \<lparr>PrettyPrint = False, fpconv_dtoa = (\<lambda>v. []), strategy = StrategyFail,
                 callback = None\<rparr>
      (JDouble 0x7FF0000000000000) None \<lparr>buffer = ''x'', indentation = 0\<rparr>
     = (False, \<lparr>buffer = ''x'', indentation = 0\<rparr>) \<and>
   internalDump \<lparr>PrettyPrint = False, fpconv_dtoa = (\<lambda>v. []), strategy = StrategyFail,
                 callback = None\<rparr>
      (JDouble 0x7FF0000000000000) None \<lparr>buffer = ''x'', indentation = 0\<rparr>
     = Thrown NoJsonEquivalent \<lparr>buffer = ''x'', indentation = 0\<rparr>"
proof -
  let ?D = "\<lparr>PrettyPrint = False, fpconv_dtoa = (\<lambda>v. []), strategy = StrategyFail,
             callback = None\<rparr>"
  let ?st = "\<lparr>buffer = ''x'', indentation = 0\<rparr>"
  have a: "unrepresentable (JDouble 0x7FF0000000000000)"
    by (simp add: isinf_def)
  have b: "run_callback ?D (JDouble 0x7FF0000000000000) None ?st = (False, ?st)"
    by (simp add: run_callback_def)
  from unsupported_policy [OF a b] a b show ?thesis by simp
qed

section \<open>External values\<close>

text \<open>
  C10.  For an External node that the callback has not taken over, the dump writes nothing
  for the node itself: it is the dump of the referenced slice, with no parent, on the same
  state.
\<close>

theorem external_dumps_referenced:
  assumes "run_callback D (JExternal ext) parent st = (False, st1)"
  shows "internalDump D (JExternal ext) parent st = internalDump D ext None st1"
  using assms by simp

theorem external_dumps_referenced_witness:
  "run_callback \<lparr>PrettyPrint = False, fpconv_dtoa = (\<lambda>v. []), strategy = StrategyFail,
                 callback = None\<rparr>
      (JExternal (JBool True)) (Some (JArray [JExternal (JBool True)]))
      \<lparr>buffer = ''['', indentation = 0\<rparr>
     = (False, \<lparr>buffer = ''['', indentation = 0\<rparr>) \<and>
   internalDump \<lparr>PrettyPrint = False, fpconv_dtoa = (\<lambda>v. []), strategy = StrategyFail,
                 callback = None\<rparr>
      (JExternal (JBool True)) (Some (JArray [JExternal (JBool True)]))
      \<lparr>buffer = ''['', indentation = 0\<rparr>
     = Returned \<lparr>buffer = ''[true'', indentation = 0\<rparr>"
proof -
  let ?D = "\<lparr>PrettyPrint = False, fpconv_dtoa = (\<lambda>v. []), strategy = StrategyFail,
             callback = None\<rparr>"
  let ?st = "\<lparr>buffer = ''['', indentation = 0\<rparr>"
  have a: "run_callback ?D (JExternal (JBool True)) (Some (JArray [JExternal (JBool True)])) ?st
             = (False, ?st)"
    by (simp add: run_callback_def)
  have b: "internalDump ?D (JBool True) None ?st = Returned \<lparr>buffer = ''[true'', indentation = 0\<rparr>"
    by (simp add: run_callback_def append_def)
  from external_dumps_referenced [OF a] a b show ?thesis by (simp only:)
qed

section \<open>The threshold cascade\<close>

declare decimal.simps [simp del]

lemma digit_char_of: "d < 10 \<Longrightarrow> char_of (48 + d) = digit_char d"
proof -
  assume "d < 10"
  then have "d \<in> set [0..<10]" by simp
  moreover have "list_all (\<lambda>d. char_of (48 + d) = digit_char d) [0..<10]" by code_simp
  ultimately show ?thesis by (simp only: list_all_iff)
qed

lemma cascade_zero: "cascade k 0 = []"
  by (simp add: cascade_def dig_def)

lemma dig_shift: "dig n (10 ^ Suc i) = dig (n div 10) (10 ^ i)"
proof -
  have "(10 * 10 ^ i \<le> n) = (10 ^ i \<le> n div 10)"
    by (simp add: less_eq_div_iff_mult_less_eq mult.commute)
  moreover have "n div (10 * 10 ^ i) = n div 10 div 10 ^ i"
    by (simp add: div_mult2_eq)
  ultimately show ?thesis by (simp add: dig_def)
qed

lemma cascade_Suc: "cascade (Suc (Suc k)) n = cascade (Suc k) (n div 10) @ dig (n div 10) 1"
proof -
  have "[1..<Suc (Suc k)] = map Suc [0..<Suc k]"
    by (simp only: map_Suc_upt One_nat_def)
  then have "cascade (Suc (Suc k)) n
               = concat (map (\<lambda>i. dig (n div 10) (10 ^ i)) (rev [0..<Suc k]))"
    by (simp only: cascade_def rev_map map_map o_def dig_shift)
  also have "[0..<Suc k] = 0 # [1..<Suc k]"
    by (simp add: upt_conv_Cons)
  finally show ?thesis by (simp add: cascade_def)
qed

lemma cascade_decimal:
  "n < 10 ^ Suc k \<Longrightarrow> cascade (Suc k) n @ [digit_char (n mod 10)] = decimal n"
proof (induction k arbitrary: n)
  case 0
  then show ?case by (simp add: cascade_def decimal.simps)
next
  case (Suc k)
  show ?case
  proof (cases "n < 10")
    case True
    then show ?thesis by (simp add: cascade_Suc cascade_zero dig_def decimal.simps)
  next
    case False
    have "n div 10 < 10 ^ Suc k"
      using Suc.prems by (simp add: less_mult_imp_div_less mult.commute)
    then have "cascade (Suc k) (n div 10) @ [digit_char (n div 10 mod 10)] = decimal (n div 10)"
      by (rule Suc.IH)
    moreover have "dig (n div 10) 1 = [digit_char (n div 10 mod 10)]"
      using False by (simp add: dig_def)
    ultimately show ?thesis using False
      by (simp add: cascade_Suc decimal.simps [of n])
  qed
qed

lemma emit_u_nat:
  assumes "unat t = T"
  shows "emit_u v st t = append (dig (unat v) T) st"
proof -
  have m: "unat ((v div t) mod 10) < 10"
    by (simp add: unat_mod)
  have "unat (48 + (v div t) mod 10) = 48 + unat ((v div t) mod 10)"
    using m by (simp add: unat_word_ariths)
  moreover have "unat ((v div t) mod 10) = unat v div T mod 10"
    using assms by (simp add: unat_mod unat_div)
  ultimately show ?thesis using m assms
    by (simp add: emit_u_def dig_def word_le_nat_alt push_back_def append_def digit_char_of)
qed

lemma foldl_emit_u:
  "foldl (emit_u v) st ts = append (concat (map (\<lambda>t. dig (unat v) (unat t)) ts)) st"
  by (induction ts arbitrary: st) (simp_all add: append_def emit_u_nat [OF refl])

lemma uint64_below: "unat (v :: 64 word) < 10 ^ Suc 19"
proof -
  have "unat v < 2 ^ 64" using unsigned_less [of v, where 'a = nat] by simp
  then show ?thesis by simp
qed

lemma thresholds_u:
  "map unat [10000000000000000000, 1000000000000000000, 100000000000000000,
           10000000000000000, 1000000000000000, 100000000000000, 10000000000000,
           1000000000000, 100000000000, 10000000000, 1000000000, 100000000, 10000000,
           1000000, 100000, 10000, 1000, 100, 10 :: 64 word]
     = map (\<lambda>i. 10 ^ i) (rev [1..<20])"
  by (simp add: upt_rec [of _ "numeral _"])

lemma dumpInteger_UInt:
  "dumpInteger (JUInt v) st = Returned (st\<lparr>buffer := buffer st @ decimal (unat v)\<rparr>)"
proof -
  have u: "unat (48 + v mod 10) = 48 + unat v mod 10"
  proof -
    have "unat (v mod 10) < 10" by (simp add: unat_mod)
    then show ?thesis by (simp add: unat_word_ariths unat_mod)
  qed
  have "map (\<lambda>t. dig (unat v) (unat t))
          [10000000000000000000, 1000000000000000000, 100000000000000000,
           10000000000000000, 1000000000000000, 100000000000000, 10000000000000,
           1000000000000, 100000000000, 10000000000, 1000000000, 100000000, 10000000,
           1000000, 100000, 10000, 1000, 100, 10 :: 64 word]
        = map (\<lambda>i. dig (unat v) (10 ^ i)) (rev [1..<20])"
    using arg_cong [OF thresholds_u, of "map (dig (unat v))"]
    by (simp only: map_map o_def)
  then have c: "concat (map (\<lambda>t. dig (unat v) (unat t))
          [10000000000000000000, 1000000000000000000, 100000000000000000,
           10000000000000000, 1000000000000000, 100000000000000, 10000000000000,
           1000000000000, 100000000000, 10000000000, 1000000000, 100000000, 10000000,
           1000000, 100000, 10000, 1000, 100, 10 :: 64 word]) = cascade (Suc 19) (unat v)"
    unfolding cascade_def by (simp only: numeral_eq_Suc [symmetric] eval_nat_numeral(3)[symmetric]) simp
  have d: "char_of (48 + unat v mod 10) = digit_char (unat v mod 10)"
    by (rule digit_char_of) simp
  show ?thesis
    using cascade_decimal [OF uint64_below, of v]
    by (simp only: dumpInteger.simps foldl_emit_u u c d) (simp add: push_back_def append_def)
qed


text \<open>
  C1 fails on the code for every positive value.  \<open>v = -v\<close> is executed for every value but
  \<open>INT64_MIN\<close>, not only for the negative ones: a positive \<open>v\<close> becomes negative, no threshold
  is reached, and the last line pushes \<open>'0' + (v % 10)\<close> with a negative remainder.  The
  value 5 is dumped as \<open>+\<close> and 42 as a full stop, while 0, -1 and \<open>INT64_MIN\<close> are dumped
  correctly.
\<close>

theorem signed_positive_garbled:
  "dumpInteger (JInt 5) \<lparr>buffer = [], indentation = 0\<rparr>
     = Returned \<lparr>buffer = ''+'', indentation = 0\<rparr>
   \<and> dumpInteger (JInt 42) \<lparr>buffer = [], indentation = 0\<rparr>
     = Returned \<lparr>buffer = ''.'', indentation = 0\<rparr>
   \<and> dumpInteger (JInt 0) \<lparr>buffer = [], indentation = 0\<rparr>
     = Returned \<lparr>buffer = ''0'', indentation = 0\<rparr>
   \<and> dumpInteger (JInt (- 1)) \<lparr>buffer = [], indentation = 0\<rparr>
     = Returned \<lparr>buffer = ''-1'', indentation = 0\<rparr>
   \<and> dumpInteger (JInt (- 9223372036854775808)) \<lparr>buffer = [], indentation = 0\<rparr>
     = Returned \<lparr>buffer = ''-9223372036854775808'', indentation = 0\<rparr>"
  by code_simp

section \<open>Dumps that only append\<close>

lemma append_simps [simp]:
  "buffer (append b st) = buffer st @ b"
  "indentation (append b st) = indentation st"
  "buffer (push_back c st) = buffer st @ [c]"
  "indentation (push_back c st) = indentation st"
  "indentation (indent st) = indentation st"
  by (simp_all add: append_def push_back_def indent_def)

lemma append_append: "append b (append a st) = append (a @ b) st"
  by (simp add: append_def)

lemma append_Nil [simp]: "append [] st = st"
  by (simp add: append_def)

lemma push_back_append: "push_back c st = append [c] st"
  by (simp add: append_def push_back_def)

lemma lift_lift: "lift st (lift (append a emp) X) = lift (append a st) X"
  by (cases X) (simp_all add: append_append emp_def)

lemma lift_emp_buffer: "buffer emp = []"
  by (simp add: emp_def)

lemma classify_Lead_pos: "classify ch = Lead k \<Longrightarrow> 0 < k"
  by (auto simp: classify_def Let_def split: if_splits)

lemma dumpString_frame: "dumpString p st = lift st (dumpString p emp)"
proof (induction p arbitrary: st rule: length_induct)
  case (1 p)
  then have IH: "\<And>q s. length q < length p \<Longrightarrow> dumpString q s = lift s (dumpString q emp)"
    by blast
  show ?case
  proof (cases p)
    case Nil
    then show ?thesis by (simp add: emp_def)
  next
    case (Cons ch rest)
    then have r: "length rest < length p" by simp
    show ?thesis
    proof (cases "classify ch")
      case (Ascii out)
      show ?thesis
        unfolding Cons
        by (simp only: dumpString_step Ascii byte_class.case
              IH [OF r, of "append out st"] IH [OF r, of "append out emp"] lift_lift)
    next
      case (Lead k)
      let ?r = "drop k (ch # rest)" and ?t = "take k (ch # rest)"
      have l: "length ?r < length p" using Cons classify_Lead_pos [OF Lead] by simp
      show ?thesis
      proof (cases "length (ch # rest) < k")
        case True
        then show ?thesis
          unfolding Cons
          by (simp only: dumpString_step Lead byte_class.case if_True lift.simps lift_emp_buffer
                append_Nil)
      next
        case False
        then show ?thesis
          unfolding Cons
          by (simp only: dumpString_step Lead byte_class.case if_False
                IH [OF l, of "append ?t st"] IH [OF l, of "append ?t emp"] lift_lift)
      qed
    next
      case Stray
      show ?thesis
        unfolding Cons
        by (simp only: dumpString_step Stray byte_class.case IH [OF r, of st])
    qed
  qed
qed

lemma foldl_emit_s: "foldl (emit_s v) st ts = append (concat (map (sdig v) ts)) st"
  by (induction ts arbitrary: st) (simp_all add: emit_s_def sdig_def append_def push_back_def)

lemma dumpInteger_frame: "dumpInteger s st = lift st (dumpInteger s emp)"
proof (cases s)
  case (JInt w)
  show ?thesis
    unfolding JInt
    by (simp only: dumpInteger.simps foldl_emit_s Let_def)
       (simp add: push_back_append append_append lift_emp_buffer)
next
  case (JUInt v)
  then show ?thesis
    by (simp only: dumpInteger_UInt) (simp add: append_def emp_def)
next
  case (JSmallInt w)
  then show ?thesis
    by (simp add: Let_def push_back_append append_append lift_emp_buffer)
qed (simp_all add: lift_emp_buffer)

lemma handleUnsupportedType_frame:
  "handleUnsupportedType D st = lift st (handleUnsupportedType D emp)"
  by (simp add: handleUnsupportedType_def lift_emp_buffer)

section \<open>The indentation is restored\<close>

lemmas dump_induct = internalDump_dumpByType_arrayPretty_arrayCompact_objectPretty_objectCompact.induct

declare internalDump.simps [simp del] dumpInteger.simps [simp del]

lemma run_callback_indentation:
  "run_callback D s p st = (h, st1) \<Longrightarrow> indentation st1 = indentation st"
  by (auto simp: run_callback_def split: option.splits prod.splits)

lemma lift_Returned_indentation:
  "lift st X = Returned st' \<Longrightarrow> indentation st' = indentation st"
  by (cases X) auto

lemma dumpString_indentation:
  "dumpString p st = Returned st' \<Longrightarrow> indentation st' = indentation st"
  using dumpString_frame [of p st] lift_Returned_indentation by metis

lemma dumpInteger_indentation:
  "dumpInteger s st = Returned st' \<Longrightarrow> indentation st' = indentation st"
  using dumpInteger_frame [of s st] lift_Returned_indentation by metis

lemma handleUnsupportedType_indentation:
  "handleUnsupportedType D st = Returned st' \<Longrightarrow> indentation st' = indentation st"
  by (auto simp: handleUnsupportedType_def split: if_splits)

lemma indentation_all:
  "internalDump D s parent st = Returned st' \<Longrightarrow> indentation st' = indentation st"
  "dumpByType D s st = Returned st' \<Longrightarrow> indentation st' = indentation st"
  "arrayPretty D par xs i n st = Returned st' \<Longrightarrow> indentation st' = indentation st"
  "arrayCompact D par xs i n st = Returned st' \<Longrightarrow> indentation st' = indentation st"
  "objectPretty D par kvs i n st = Returned st' \<Longrightarrow> indentation st' = indentation st"
  "objectCompact D par kvs i n st = Returned st' \<Longrightarrow> indentation st' = indentation st"
proof (induction D s parent st and D s st and D par xs i n st and D par xs i n st
         and D par kvs i n st and D par kvs i n st
       arbitrary: st' and st' and st' and st' and st' and st' rule: dump_induct)
  case (1 D s parent st)
  obtain h st1 where rc: "run_callback D s parent st = (h, st1)" by (cases "run_callback D s parent st")
  show ?case
  proof (cases h)
    case True
    then show ?thesis using "1.prems" rc run_callback_indentation [OF rc]
      by (simp add: internalDump.simps)
  next
    case False
    then have d: "dumpByType D s st1 = Returned st'"
      using "1.prems" rc by (simp add: internalDump.simps)
    have "indentation st' = indentation st1"
      by (rule "1.IH" [OF rc [symmetric] _ d]) (simp add: False)
    then show ?thesis using run_callback_indentation [OF rc] by simp
  qed
next
  case (5 D xs st)
  show ?case
  proof (cases "PrettyPrint D")
    case True
    let ?s0 = "push_back CHR 0x0A (push_back CHR ''['' st)\<lparr>indentation := indentation st + 1\<rparr>"
    from "5.prems" True obtain st1
      where r: "arrayPretty D (JArray xs) xs 0 (length xs) ?s0 = Returned st1"
        and e: "st' = push_back CHR '']'' (indent (st1\<lparr>indentation := indentation st1 - 1\<rparr>))"
      by (auto simp: Let_def split: outcome.splits)
    have "indentation st1 = indentation ?s0" by (rule "5.IH"(1) [OF refl True r])
    then show ?thesis using e by simp
  next
    case False
    from "5.prems" False obtain st1
      where r: "arrayCompact D (JArray xs) xs 0 (length xs) (push_back CHR ''['' st) = Returned st1"
        and e: "st' = push_back CHR '']'' st1"
      by (auto simp: Let_def split: outcome.splits)
    have "indentation st1 = indentation (push_back CHR ''['' st)"
      by (rule "5.IH"(2) [OF refl False r])
    then show ?thesis using e by simp
  qed
next
  case (6 D kvs st)
  show ?case
  proof (cases "PrettyPrint D")
    case True
    let ?s0 = "push_back CHR 0x0A (push_back CHR ''{'' st)\<lparr>indentation := indentation st + 1\<rparr>"
    from "6.prems" True obtain st1
      where r: "objectPretty D (JObject kvs) kvs 0 (length kvs) ?s0 = Returned st1"
        and e: "st' = push_back CHR ''}'' (indent (st1\<lparr>indentation := indentation st1 - 1\<rparr>))"
      by (auto simp: Let_def split: outcome.splits)
    have "indentation st1 = indentation ?s0" by (rule "6.IH"(1) [OF refl True r])
    then show ?thesis using e by simp
  next
    case False
    from "6.prems" False obtain st1
      where r: "objectCompact D (JObject kvs) kvs 0 (length kvs) (push_back CHR ''{'' st) = Returned st1"
        and e: "st' = push_back CHR ''}'' st1"
      by (auto simp: Let_def split: outcome.splits)
    have "indentation st1 = indentation (push_back CHR ''{'' st)"
      by (rule "6.IH"(2) [OF refl False r])
    then show ?thesis using e by simp
  qed
next
  case (9 D ext st)
  then show ?case by simp
next
  case (15 D p st)
  then show ?case
    by (auto split: outcome.splits dest: dumpString_indentation)
next
  case (20 D parent x xs i n st)
  let ?s0 = "indent st"
  from "20.prems" obtain st1
    where r1: "internalDump D x (Some parent) ?s0 = Returned st1"
      and r2: "arrayPretty D parent xs (i + 1) n
                 (push_back CHR 0x0A (if i + 1 \<noteq> n then push_back CHR '','' st1 else st1))
               = Returned st'"
    by (auto split: outcome.splits)
  have "indentation st1 = indentation ?s0" by (rule "20.IH"(1) [OF r1])
  moreover have "indentation st'
      = indentation (push_back CHR 0x0A (if i + 1 \<noteq> n then push_back CHR '','' st1 else st1))"
    by (rule "20.IH"(2) [OF r1 r2])
  ultimately show ?case by simp
next
  case (22 D parent x xs i n st)
  let ?s0 = "if 0 < i then push_back CHR '','' st else st"
  from "22.prems" obtain st1
    where r1: "internalDump D x (Some parent) ?s0 = Returned st1"
      and r2: "arrayCompact D parent xs (i + 1) n st1 = Returned st'"
    by (auto split: outcome.splits)
  have "indentation st1 = indentation ?s0" by (rule "22.IH"(1) [OF r1])
  moreover have "indentation st' = indentation st1" by (rule "22.IH"(2) [OF r1 r2])
  ultimately show ?case by simp
next
  case (24 D parent kv kvs i n st)
  let ?s0 = "indent st"
  from "24.prems" obtain st1 st2
    where r1: "internalDump D (fst kv) (Some parent) ?s0 = Returned st1"
      and r2: "internalDump D (snd kv) (Some parent) (append '' : '' st1) = Returned st2"
      and r3: "objectPretty D parent kvs (i + 1) n
                 (push_back CHR 0x0A (if i + 1 \<noteq> n then push_back CHR '','' st2 else st2))
               = Returned st'"
    by (auto split: outcome.splits)
  have "indentation st1 = indentation ?s0" by (rule "24.IH"(1) [OF r1])
  moreover have "indentation st2 = indentation (append '' : '' st1)"
    by (rule "24.IH"(2) [OF r1 r2])
  moreover have "indentation st'
      = indentation (push_back CHR 0x0A (if i + 1 \<noteq> n then push_back CHR '','' st2 else st2))"
    by (rule "24.IH"(3) [OF r1 r2 r3])
  ultimately show ?case by simp
next
  case (26 D parent kv kvs i n st)
  let ?s0 = "if 0 < i then push_back CHR '','' st else st"
  from "26.prems" obtain st1 st2
    where r1: "internalDump D (fst kv) (Some parent) ?s0 = Returned st1"
      and r2: "internalDump D (snd kv) (Some parent) (push_back CHR '':'' st1) = Returned st2"
      and r3: "objectCompact D parent kvs (i + 1) n st2 = Returned st'"
    by (auto split: outcome.splits)
  have "indentation st1 = indentation ?s0" by (rule "26.IH"(1) [OF r1])
  moreover have "indentation st2 = indentation (push_back CHR '':'' st1)"
    by (rule "26.IH"(2) [OF r1 r2])
  moreover have "indentation st' = indentation st2" by (rule "26.IH"(3) [OF r1 r2 r3])
  ultimately show ?case by simp
qed (auto dest: handleUnsupportedType_indentation dumpInteger_indentation split: if_splits)

section \<open>The layout of arrays and objects\<close>

lemma indent_eq:
  "0 \<le> indentation st \<Longrightarrow> indentation st < 2 ^ 64 \<Longrightarrow>
   indent st = append (indent_text (nat (indentation st))) st"
  by (simp add: indent_def indent_text_def)

lemma layouts_Cons:
  "layouts D d (x # xs) = Some ts \<Longrightarrow>
   \<exists>t ts'. layout D d x = Some t \<and> layouts D d xs = Some ts' \<and> ts = t # ts'"
  by (auto split: option.splits)

lemma layouts_length: "layouts D d xs = Some ts \<Longrightarrow> length ts = length xs"
  by (induction xs arbitrary: ts) (auto split: option.splits)

lemma members_Cons:
  "members D d (kv # kvs) = Some ts \<Longrightarrow>
   \<exists>tk tv ts'. layout D d (fst kv) = Some tk \<and> layout D d (snd kv) = Some tv
      \<and> members D d kvs = Some ts'
      \<and> ts = (tk @ (if PrettyPrint D then '' : '' else '':'') @ tv) # ts'"
  by (cases kv) (auto split: option.splits)

lemma members_length: "members D d kvs = Some ts \<Longrightarrow> length ts = length kvs"
  by (induction kvs arbitrary: ts) (auto split: option.splits)

lemma depth_members_Cons:
  "depth_members (kv # kvs) = max (max (depth (fst kv)) (depth (snd kv))) (depth_members kvs)"
  by (cases kv) simp

lemma lines_pretty_Cons:
  "lines_pretty d (t # ts) =
     indent_text d @ t @ (if ts = [] then [] else '','') @ [CHR 0x0A] @ lines_pretty d ts"
  by (cases ts) simp_all

lemma leaf_frame:
  assumes "\<And>xs. s \<noteq> JArray xs" "\<And>kvs. s \<noteq> JObject kvs" "\<And>e. s \<noteq> JExternal e"
  shows "dumpByType D s st = lift st (dumpByType D s emp)"
proof (cases s)
  case (JString p)
  have a: "dumpString p (push_back CHR 0x22 st) = lift (push_back CHR 0x22 st) (dumpString p emp)"
    by (rule dumpString_frame)
  have b: "dumpString p (push_back CHR 0x22 emp) = lift (push_back CHR 0x22 emp) (dumpString p emp)"
    by (rule dumpString_frame)
  show ?thesis
    unfolding JString dumpByType.simps a b
    by (cases "dumpString p emp") (simp_all add: push_back_append append_append lift_emp_buffer)
next
  case (JDouble v)
  then show ?thesis
    using handleUnsupportedType_frame [of D st] by (simp add: lift_emp_buffer)
qed (use assms in \<open>simp_all add: handleUnsupportedType_frame [of D st] dumpInteger_frame [of _ st]
       lift_emp_buffer\<close>)

lemma leaf_dump:
  assumes "\<And>xs. s \<noteq> JArray xs" "\<And>kvs. s \<noteq> JObject kvs" "\<And>e. s \<noteq> JExternal e"
    and "leaf_text D s = Some t"
  shows "dumpByType D s st = Returned (append t st)"
proof -
  from assms(4) obtain e where "dumpByType D s emp = Returned e" and "buffer e = t"
    by (auto simp: leaf_text_def split: outcome.splits)
  then show ?thesis using leaf_frame [OF assms(1-3), of D st] by simp
qed

lemma no_callback: "callback D = None \<Longrightarrow> run_callback D s parent st = (False, st)"
  by (simp add: run_callback_def)

lemma depth_list_bounds:
  assumes "k + int (depth_list (x # xs)) < B"
  shows "k + int (depth x) < B" and "k + int (depth_list xs) < B"
  using assms by (simp_all add: max_def split: if_splits)

lemma depth_members_bounds:
  assumes "k + int (depth_members (kv # kvs)) < B"
  shows "k + int (depth (fst kv)) < B" and "k + int (depth (snd kv)) < B"
    and "k + int (depth_members kvs) < B"
  using assms by (simp_all add: depth_members_Cons max_def split: if_splits)

lemma layout_all:
  "\<lbrakk>callback D = None; layout D (nat (indentation st)) s = Some t; 0 \<le> indentation st;
    indentation st + int (depth s) < 2 ^ 64\<rbrakk>
   \<Longrightarrow> internalDump D s parent st = Returned (append t st)"
  "\<lbrakk>callback D = None; layout D (nat (indentation st)) s = Some t; 0 \<le> indentation st;
    indentation st + int (depth s) < 2 ^ 64\<rbrakk>
   \<Longrightarrow> dumpByType D s st = Returned (append t st)"
  "\<lbrakk>callback D = None; layouts D (nat (indentation st)) xs = Some ts; 0 \<le> indentation st;
    indentation st + int (depth_list xs) < 2 ^ 64; i + length xs = n\<rbrakk>
   \<Longrightarrow> arrayPretty D par xs i n st
       = Returned (append (lines_pretty (nat (indentation st)) ts) st)"
  "\<lbrakk>callback D = None; layouts D (nat (indentation st)) xs = Some ts; 0 \<le> indentation st;
    indentation st + int (depth_list xs) < 2 ^ 64\<rbrakk>
   \<Longrightarrow> arrayCompact D par xs i n st
       = Returned (append (if i = 0 then separated ts else concat (map ((@) '','') ts)) st)"
  "\<lbrakk>callback D = None; PrettyPrint D; members D (nat (indentation st)) kvs = Some ts;
    0 \<le> indentation st; indentation st + int (depth_members kvs) < 2 ^ 64; i + length kvs = n\<rbrakk>
   \<Longrightarrow> objectPretty D par kvs i n st
       = Returned (append (lines_pretty (nat (indentation st)) ts) st)"
  "\<lbrakk>callback D = None; \<not> PrettyPrint D; members D (nat (indentation st)) kvs = Some ts;
    0 \<le> indentation st; indentation st + int (depth_members kvs) < 2 ^ 64\<rbrakk>
   \<Longrightarrow> objectCompact D par kvs i n st
       = Returned (append (if i = 0 then separated ts else concat (map ((@) '','') ts)) st)"
proof (induction D s parent st and D s st and D par xs i n st and D par xs i n st
         and D par kvs i n st and D par kvs i n st
       arbitrary: t and t and ts and ts and ts and ts rule: dump_induct)
  case (1 D s parent st)
  have rc: "run_callback D s parent st = (False, st)" by (rule no_callback) fact
  have "dumpByType D s st = Returned (append t st)"
    by (rule "1.IH" [OF rc [symmetric] _ "1.prems"]) simp
  then show ?case by (simp add: internalDump.simps rc)
next
  case (5 D xs st)
  let ?d = "nat (indentation st)"
  show ?case
  proof (cases "PrettyPrint D")
    case True
    let ?s0 = "push_back CHR 0x0A (push_back CHR ''['' st)\<lparr>indentation := indentation st + 1\<rparr>"
    from "5.prems"(2) True obtain ts
      where l: "layouts D (?d + 1) xs = Some ts"
        and t: "t = enclose True ?d CHR ''['' CHR '']'' ts"
      by auto
    have d: "nat (indentation ?s0) = ?d + 1" using "5.prems"(3) by simp
    have r: "arrayPretty D (JArray xs) xs 0 (length xs) ?s0
               = Returned (append (lines_pretty (nat (indentation ?s0)) ts) ?s0)"
    proof (rule "5.IH"(1) [OF refl True "5.prems"(1)])
      show "layouts D (nat (indentation ?s0)) xs = Some ts" using l d by simp
      show "0 \<le> indentation ?s0" using "5.prems"(3) by simp
      show "indentation ?s0 + int (depth_list xs) < 2 ^ 64" using "5.prems"(4) by simp
      show "0 + length xs = length xs" by simp
    qed
    have i: "indentation st < 2 ^ 64" using "5.prems"(4) by simp
    have d': "nat (indentation st + 1) = Suc (nat (indentation st))"
      using "5.prems"(3) by simp
    show ?thesis
      using True "5.prems"(3) i
      by (simp add: Let_def r d t enclose_def indent_eq) (simp add: append_def push_back_def d')
  next
    case False
    let ?s0 = "push_back CHR ''['' st"
    from "5.prems"(2) False obtain ts
      where l: "layouts D ?d xs = Some ts"
        and t: "t = enclose False ?d CHR ''['' CHR '']'' ts"
      by auto
    have r: "arrayCompact D (JArray xs) xs 0 (length xs) ?s0
               = Returned (append (if (0::nat) = 0 then separated ts else concat (map ((@) '','') ts)) ?s0)"
    proof (rule "5.IH"(2) [OF refl False "5.prems"(1)])
      show "layouts D (nat (indentation ?s0)) xs = Some ts" using l by simp
      show "0 \<le> indentation ?s0" using "5.prems"(3) by simp
      show "indentation ?s0 + int (depth_list xs) < 2 ^ 64" using "5.prems"(4) by simp
    qed
    show ?thesis
      using False
      by (simp add: Let_def r t enclose_def)
  qed
next
  case (6 D kvs st)
  let ?d = "nat (indentation st)"
  show ?case
  proof (cases "PrettyPrint D")
    case True
    let ?s0 = "push_back CHR 0x0A (push_back CHR ''{'' st)\<lparr>indentation := indentation st + 1\<rparr>"
    from "6.prems"(2) True obtain ts
      where l: "members D (?d + 1) kvs = Some ts"
        and t: "t = enclose True ?d CHR ''{'' CHR ''}'' ts"
      by auto
    have d: "nat (indentation ?s0) = ?d + 1" using "6.prems"(3) by simp
    have r: "objectPretty D (JObject kvs) kvs 0 (length kvs) ?s0
               = Returned (append (lines_pretty (nat (indentation ?s0)) ts) ?s0)"
    proof (rule "6.IH"(1) [OF refl True "6.prems"(1) True])
      show "members D (nat (indentation ?s0)) kvs = Some ts" using l d by simp
      show "0 \<le> indentation ?s0" using "6.prems"(3) by simp
      show "indentation ?s0 + int (depth_members kvs) < 2 ^ 64" using "6.prems"(4) by simp
      show "0 + length kvs = length kvs" by simp
    qed
    have i: "indentation st < 2 ^ 64" using "6.prems"(4) by simp
    have d': "nat (indentation st + 1) = Suc (nat (indentation st))"
      using "6.prems"(3) by simp
    show ?thesis
      using True "6.prems"(3) i
      by (simp add: Let_def r d t enclose_def indent_eq) (simp add: append_def push_back_def d')
  next
    case False
    let ?s0 = "push_back CHR ''{'' st"
    from "6.prems"(2) False obtain ts
      where l: "members D ?d kvs = Some ts"
        and t: "t = enclose False ?d CHR ''{'' CHR ''}'' ts"
      by auto
    have r: "objectCompact D (JObject kvs) kvs 0 (length kvs) ?s0
               = Returned (append (if (0::nat) = 0 then separated ts else concat (map ((@) '','') ts)) ?s0)"
    proof (rule "6.IH"(2) [OF refl False "6.prems"(1) False])
      show "members D (nat (indentation ?s0)) kvs = Some ts" using l by simp
      show "0 \<le> indentation ?s0" using "6.prems"(3) by simp
      show "indentation ?s0 + int (depth_members kvs) < 2 ^ 64" using "6.prems"(4) by simp
    qed
    show ?thesis
      using False
      by (simp add: Let_def r t enclose_def)
  qed
next
  case (9 D ext st)
  have "internalDump D ext None st = Returned (append t st)"
    by (rule "9.IH") (use "9.prems" in simp_all)
  then show ?case by simp
next
  case (19 D parent i n st)
  then show ?case by simp
next
  case (20 D parent x xs i n st)
  let ?d = "nat (indentation st)"
  from layouts_Cons [OF "20.prems"(2)] obtain t ts'
    where lx: "layout D ?d x = Some t" and lxs: "layouts D ?d xs = Some ts'" and ts: "ts = t # ts'"
    by blast
  note dp = depth_list_bounds [OF "20.prems"(4)]
  have i: "indentation st < 2 ^ 64" using dp by simp
  have ind: "indent st = append (indent_text ?d) st"
    by (rule indent_eq [OF "20.prems"(3) i])
  have r1: "internalDump D x (Some parent) (indent st) = Returned (append t (indent st))"
    by (rule "20.IH"(1)) (use "20.prems"(1,3) lx dp in simp_all)
  let ?s2 = "push_back CHR 0x0A
               (if i + 1 \<noteq> n then push_back CHR '','' (append t (indent st)) else append t (indent st))"
  have r2: "arrayPretty D parent xs (i + 1) n ?s2
              = Returned (append (lines_pretty (nat (indentation ?s2)) ts') ?s2)"
    by (rule "20.IH"(2) [OF r1]) (use "20.prems"(1,3,5) lxs dp in simp_all)
  have e: "(i + 1 \<noteq> n) = (ts' \<noteq> [])"
    using "20.prems"(5) layouts_length [OF lxs] by auto
  have "arrayPretty D parent (x # xs) i n st = arrayPretty D parent xs (i + 1) n ?s2"
    by (simp only: arrayPretty.simps r1 outcome.case)
  also note r2
  also have "append (lines_pretty (nat (indentation ?s2)) ts') ?s2
               = append (lines_pretty ?d ts) st"
    using e by (auto simp add: ts lines_pretty_Cons ind append_def push_back_def)
  finally show ?case .
next
  case (21 D parent i n st)
  then show ?case by simp
next
  case (22 D parent x xs i n st)
  let ?d = "nat (indentation st)"
  from layouts_Cons [OF "22.prems"(2)] obtain t ts'
    where lx: "layout D ?d x = Some t" and lxs: "layouts D ?d xs = Some ts'" and ts: "ts = t # ts'"
    by blast
  note dp = depth_list_bounds [OF "22.prems"(4)]
  let ?s0 = "if 0 < i then push_back CHR '','' st else st"
  have r1: "internalDump D x (Some parent) ?s0 = Returned (append t ?s0)"
    by (rule "22.IH"(1)) (use "22.prems"(1,3) lx dp in simp_all)
  have r2: "arrayCompact D parent xs (i + 1) n (append t ?s0)
              = Returned (append (if i + 1 = 0 then separated ts' else concat (map ((@) '','') ts'))
                   (append t ?s0))"
    by (rule "22.IH"(2) [OF r1]) (use "22.prems"(1,3) lxs dp in simp_all)
  have "arrayCompact D parent (x # xs) i n st = arrayCompact D parent xs (i + 1) n (append t ?s0)"
    by (simp only: arrayCompact.simps r1 outcome.case)
  also note r2
  also have "append (if i + 1 = 0 then separated ts' else concat (map ((@) '','') ts'))
                 (append t ?s0)
               = append (if i = 0 then separated ts else concat (map ((@) '','') ts)) st"
    by (simp add: ts append_def push_back_def)
  finally show ?case .
next
  case (23 D parent i n st)
  then show ?case by simp
next
  case (24 D parent kv kvs i n st)
  let ?d = "nat (indentation st)"
  from members_Cons [OF "24.prems"(3)] "24.prems"(2) obtain tk tv ts'
    where lk: "layout D ?d (fst kv) = Some tk" and lv: "layout D ?d (snd kv) = Some tv"
      and lm: "members D ?d kvs = Some ts'" and ts: "ts = (tk @ '' : '' @ tv) # ts'"
    by auto
  note dp = depth_members_bounds [OF "24.prems"(5)]
  have i: "indentation st < 2 ^ 64" using dp by simp
  have ind: "indent st = append (indent_text ?d) st"
    by (rule indent_eq [OF "24.prems"(4) i])
  have r1: "internalDump D (fst kv) (Some parent) (indent st) = Returned (append tk (indent st))"
    by (rule "24.IH"(1)) (use "24.prems"(1,2,4) lk dp in simp_all)
  let ?s1 = "append '' : '' (append tk (indent st))"
  have r2: "internalDump D (snd kv) (Some parent) ?s1 = Returned (append tv ?s1)"
    by (rule "24.IH"(2) [OF r1]) (use "24.prems"(1,2,4) lv dp in simp_all)
  let ?s2 = "push_back CHR 0x0A
               (if i + 1 \<noteq> n then push_back CHR '','' (append tv ?s1) else append tv ?s1)"
  have r3: "objectPretty D parent kvs (i + 1) n ?s2
              = Returned (append (lines_pretty (nat (indentation ?s2)) ts') ?s2)"
    by (rule "24.IH"(3) [OF r1 r2]) (use "24.prems"(1,2,4,6) lm dp in simp_all)
  have e: "(i + 1 \<noteq> n) = (ts' \<noteq> [])"
    using "24.prems"(6) members_length [OF lm] by auto
  have "objectPretty D parent (kv # kvs) i n st = objectPretty D parent kvs (i + 1) n ?s2"
    by (simp only: objectPretty.simps r1 r2 outcome.case)
  also note r3
  also have "append (lines_pretty (nat (indentation ?s2)) ts') ?s2
               = append (lines_pretty ?d ts) st"
    using e by (auto simp add: ts lines_pretty_Cons ind append_def push_back_def)
  finally show ?case .
next
  case (25 D parent i n st)
  then show ?case by simp
next
  case (26 D parent kv kvs i n st)
  let ?d = "nat (indentation st)"
  from members_Cons [OF "26.prems"(3)] "26.prems"(2) obtain tk tv ts'
    where lk: "layout D ?d (fst kv) = Some tk" and lv: "layout D ?d (snd kv) = Some tv"
      and lm: "members D ?d kvs = Some ts'" and ts: "ts = (tk @ '':'' @ tv) # ts'"
    by auto
  note dp = depth_members_bounds [OF "26.prems"(5)]
  let ?s0 = "if 0 < i then push_back CHR '','' st else st"
  have r1: "internalDump D (fst kv) (Some parent) ?s0 = Returned (append tk ?s0)"
    by (rule "26.IH"(1)) (use "26.prems"(1,2,4) lk dp in simp_all)
  let ?s1 = "push_back CHR '':'' (append tk ?s0)"
  have r2: "internalDump D (snd kv) (Some parent) ?s1 = Returned (append tv ?s1)"
    by (rule "26.IH"(2) [OF r1]) (use "26.prems"(1,2,4) lv dp in simp_all)
  have r3: "objectCompact D parent kvs (i + 1) n (append tv ?s1)
              = Returned (append (if i + 1 = 0 then separated ts' else concat (map ((@) '','') ts'))
                   (append tv ?s1))"
    by (rule "26.IH"(3) [OF r1 r2]) (use "26.prems"(1,2,4) lm dp in simp_all)
  have "objectCompact D parent (kv # kvs) i n st
          = objectCompact D parent kvs (i + 1) n (append tv ?s1)"
    by (simp only: objectCompact.simps r1 r2 outcome.case)
  also note r3
  also have "append (if i + 1 = 0 then separated ts' else concat (map ((@) '','') ts'))
                 (append tv ?s1)
               = append (if i = 0 then separated ts else concat (map ((@) '','') ts)) st"
    by (simp add: ts append_def push_back_def)
  finally show ?case .
qed (rule leaf_dump; simp)+

text \<open>
  C6.  With no callback set, for every node whose dump throws nowhere, and for arrays and
  objects in particular, the dump appends the layout of the node: in compact mode the
  elements in storage order with \<open>,\<close> between them, \<open>:\<close> between key and value and no white
  space; in pretty mode each element on a line of its own, indented by two spaces for each
  level, \<open>" : "\<close> between key and value, no comma after the last element, and the closing
  bracket after a newline at the indentation of the parent.  (The indentation is not
  negative and the nesting stays below the range of \<open>size_t\<close>.)
\<close>

theorem layout_refinement:
  assumes "callback D = None" and "0 \<le> indentation st"
    and "indentation st + int (depth s) < 2 ^ 64"
    and "layout D (nat (indentation st)) s = Some t"
  shows "internalDump D s parent st = Returned (st\<lparr>buffer := buffer st @ t\<rparr>)"
  using layout_all(1) [OF assms(1) assms(4) assms(2) assms(3), of parent]
  by (simp add: append_def)

theorem layout_refinement_witness:
  "callback \<lparr>PrettyPrint = True, fpconv_dtoa = (\<lambda>v. []), strategy = StrategyFail, callback = None\<rparr> = None
   \<and> 0 \<le> indentation \<lparr>buffer = [], indentation = 0\<rparr>
   \<and> indentation \<lparr>buffer = [], indentation = 0\<rparr> + int (depth (JArray [JUInt 1, JUInt 2])) < 2 ^ 64
   \<and> layout \<lparr>PrettyPrint = True, fpconv_dtoa = (\<lambda>v. []), strategy = StrategyFail, callback = None\<rparr>
         (nat (indentation \<lparr>buffer = [], indentation = 0\<rparr>)) (JArray [JUInt 1, JUInt 2])
       = Some [CHR ''['', CHR 0x0A, CHR '' '', CHR '' '', CHR ''1'', CHR '','', CHR 0x0A,
               CHR '' '', CHR '' '', CHR ''2'', CHR 0x0A, CHR '']'']
   \<and> internalDump \<lparr>PrettyPrint = True, fpconv_dtoa = (\<lambda>v. []), strategy = StrategyFail, callback = None\<rparr>
         (JArray [JUInt 1, JUInt 2]) None \<lparr>buffer = [], indentation = 0\<rparr>
       = Returned \<lparr>buffer = [CHR ''['', CHR 0x0A, CHR '' '', CHR '' '', CHR ''1'', CHR '','', CHR 0x0A,
               CHR '' '', CHR '' '', CHR ''2'', CHR 0x0A, CHR '']''], indentation = 0\<rparr>"
proof -
  let ?D = "\<lparr>PrettyPrint = True, fpconv_dtoa = (\<lambda>v. []), strategy = StrategyFail, callback = None\<rparr>"
  let ?st = "\<lparr>buffer = [], indentation = 0\<rparr>"
  let ?s = "JArray [JUInt 1, JUInt 2]"
  let ?t = "[CHR ''['', CHR 0x0A, CHR '' '', CHR '' '', CHR ''1'', CHR '','', CHR 0x0A,
               CHR '' '', CHR '' '', CHR ''2'', CHR 0x0A, CHR '']'']"
  have a: "callback ?D = None" by simp
  have b: "0 \<le> indentation ?st" by simp
  have c: "indentation ?st + int (depth ?s) < 2 ^ 64" by simp
  have "layout ?D 0 ?s = Some ?t" by code_simp
  then have d: "layout ?D (nat (indentation ?st)) ?s = Some ?t" by simp
  from layout_refinement [OF a b c d, of None] a b c d show ?thesis by simp
qed

text \<open>
  C9.  When the dump of a node returns, of an array or an object in particular, the
  indentation is what it was before the node was entered, in compact and in pretty mode, with
  or without a callback.
\<close>

theorem indentation_restored:
  assumes "internalDump D s parent st = Returned st'"
  shows "indentation st' = indentation st"
  using assms by (rule indentation_all(1))

theorem indentation_restored_witness:
  "internalDump \<lparr>PrettyPrint = True, fpconv_dtoa = (\<lambda>v. []), strategy = StrategyFail, callback = None\<rparr>
         (JArray [JObject [], JNull]) None \<lparr>buffer = [], indentation = 0\<rparr>
       = Returned \<lparr>buffer = [CHR ''['', CHR 0x0A, CHR '' '', CHR '' '', CHR ''{'', CHR 0x0A,
               CHR '' '', CHR '' '', CHR ''}'', CHR '','', CHR 0x0A,
               CHR '' '', CHR '' '', CHR ''n'', CHR ''u'', CHR ''l'', CHR ''l'', CHR 0x0A, CHR '']''],
            indentation = 0\<rparr>
   \<and> indentation \<lparr>buffer = [CHR ''['', CHR 0x0A, CHR '' '', CHR '' '', CHR ''{'', CHR 0x0A,
               CHR '' '', CHR '' '', CHR ''}'', CHR '','', CHR 0x0A,
               CHR '' '', CHR '' '', CHR ''n'', CHR ''u'', CHR ''l'', CHR ''l'', CHR 0x0A, CHR '']''],
            indentation = 0\<rparr> = indentation \<lparr>buffer = [], indentation = 0\<rparr>"
proof -
  let ?D = "\<lparr>PrettyPrint = True, fpconv_dtoa = (\<lambda>v. []), strategy = StrategyFail, callback = None\<rparr>"
  have a: "internalDump ?D (JArray [JObject [], JNull]) None \<lparr>buffer = [], indentation = 0\<rparr>
       = Returned \<lparr>buffer = [CHR ''['', CHR 0x0A, CHR '' '', CHR '' '', CHR ''{'', CHR 0x0A,
               CHR '' '', CHR '' '', CHR ''}'', CHR '','', CHR 0x0A,
               CHR '' '', CHR '' '', CHR ''n'', CHR ''u'', CHR ''l'', CHR ''l'', CHR 0x0A, CHR '']''],
            indentation = 0\<rparr>"
    by code_simp
  from indentation_restored [OF a] a show ?thesis by (simp only:) 
qed

section \<open>The interception hook\<close>

lemmas dumpT_induct =
  internalDumpT_dumpByTypeT_arrayPrettyT_arrayCompactT_objectPrettyT_objectCompactT.induct

declare internalDumpT.simps [simp del]

lemma run_callbackT_fst: "fst (run_callbackT D s parent st) = run_callback D s parent st"
  by (simp add: run_callbackT_def run_callback_def split: option.splits prod.splits)

lemma erase_trace:
  "fst (internalDumpT D s parent st) = internalDump D s parent st"
  "fst (dumpByTypeT D s st) = dumpByType D s st"
  "fst (arrayPrettyT D par xs i n st) = arrayPretty D par xs i n st"
  "fst (arrayCompactT D par xs i n st) = arrayCompact D par xs i n st"
  "fst (objectPrettyT D par kvs i n st) = objectPretty D par kvs i n st"
  "fst (objectCompactT D par kvs i n st) = objectCompact D par kvs i n st"
proof (induction D s parent st and D s st and D par xs i n st and D par xs i n st
         and D par kvs i n st and D par kvs i n st rule: dumpT_induct)
  case (1 D s parent st)
  obtain h st1 tr where rt: "run_callbackT D s parent st = ((h, st1), tr)"
    by (metis prod.exhaust)
  then have rc: "run_callback D s parent st = (h, st1)"
    using run_callbackT_fst [of D s parent st] by simp
  show ?case
  proof (cases h)
    case True
    then show ?thesis by (simp add: internalDumpT.simps internalDump.simps rt rc)
  next
    case False
    have "fst (dumpByTypeT D s st1) = dumpByType D s st1"
      by (rule "1.IH" [OF rt [symmetric] refl]) (simp add: False)
    then show ?thesis
      using False by (auto simp: internalDumpT.simps internalDump.simps rt rc split: prod.splits)
  qed
next
  case (2 D xs st)
  show ?case
  proof (cases "PrettyPrint D")
    case True
    from "2.IH"(1) [OF refl True] True show ?thesis
      by (auto simp: Let_def split: prod.splits outcome.splits)
  next
    case False
    from "2.IH"(2) [OF refl False] False show ?thesis
      by (auto simp: Let_def split: prod.splits outcome.splits)
  qed
next
  case (3 D kvs st)
  show ?case
  proof (cases "PrettyPrint D")
    case True
    from "3.IH"(1) [OF refl True] True show ?thesis
      by (auto simp: Let_def split: prod.splits outcome.splits)
  next
    case False
    from "3.IH"(2) [OF refl False] False show ?thesis
      by (auto simp: Let_def split: prod.splits outcome.splits)
  qed
next
  case (4 D ext st)
  then show ?case by simp
next
  case (7 D parent x xs i n st)
  obtain o1 tr1 where r1: "internalDumpT D x (Some parent) (indent st) = (o1, tr1)"
    by (metis prod.exhaust)
  then have e1: "internalDump D x (Some parent) (indent st) = o1"
    using "7.IH"(1) by simp
  show ?case
  proof (cases o1)
    case (Returned st1)
    have "fst (arrayPrettyT D parent xs (i + 1) n
             (push_back CHR 0x0A (if i + 1 \<noteq> n then push_back CHR '','' st1 else st1)))
          = arrayPretty D parent xs (i + 1) n
             (push_back CHR 0x0A (if i + 1 \<noteq> n then push_back CHR '','' st1 else st1))"
      by (rule "7.IH"(2) [OF r1 [symmetric] Returned])
    then show ?thesis using Returned by (auto simp: r1 e1 split: prod.splits)
  next
    case (Thrown e st1)
    then show ?thesis by (simp add: r1 e1)
  qed
next
  case (9 D parent x xs i n st)
  let ?s0 = "if 0 < i then push_back CHR '','' st else st"
  obtain o1 tr1 where r1: "internalDumpT D x (Some parent) ?s0 = (o1, tr1)"
    by (metis prod.exhaust)
  then have e1: "internalDump D x (Some parent) ?s0 = o1"
    using "9.IH"(1) by simp
  show ?case
  proof (cases o1)
    case (Returned st1)
    have "fst (arrayCompactT D parent xs (i + 1) n st1) = arrayCompact D parent xs (i + 1) n st1"
      by (rule "9.IH"(2) [OF r1 [symmetric] Returned])
    then show ?thesis using Returned r1 e1 by (auto split: prod.splits)
  next
    case (Thrown e st1)
    then show ?thesis using r1 e1 by simp
  qed
next
  case (11 D parent kv kvs i n st)
  obtain o1 tr1 where r1: "internalDumpT D (fst kv) (Some parent) (indent st) = (o1, tr1)"
    by (metis prod.exhaust)
  then have e1: "internalDump D (fst kv) (Some parent) (indent st) = o1"
    using "11.IH"(1) by simp
  show ?case
  proof (cases o1)
    case (Returned st1)
    obtain o2 tr2 where r2: "internalDumpT D (snd kv) (Some parent) (append '' : '' st1) = (o2, tr2)"
      by (metis prod.exhaust)
    then have e2: "internalDump D (snd kv) (Some parent) (append '' : '' st1) = o2"
      using "11.IH"(2) [OF r1 [symmetric] Returned] by simp
    show ?thesis
    proof (cases o2)
      case R2: (Returned st2)
      have "fst (objectPrettyT D parent kvs (i + 1) n
               (push_back CHR 0x0A (if i + 1 \<noteq> n then push_back CHR '','' st2 else st2)))
            = objectPretty D parent kvs (i + 1) n
               (push_back CHR 0x0A (if i + 1 \<noteq> n then push_back CHR '','' st2 else st2))"
        by (rule "11.IH"(3) [OF r1 [symmetric] Returned r2 [symmetric] R2])
      then show ?thesis using Returned R2 by (auto simp: r1 e1 r2 e2 split: prod.splits)
    next
      case T2: (Thrown e st2)
      then show ?thesis using Returned by (simp add: r1 e1 r2 e2)
    qed
  next
    case (Thrown e st1)
    then show ?thesis by (simp add: r1 e1)
  qed
next
  case (13 D parent kv kvs i n st)
  let ?s0 = "if 0 < i then push_back CHR '','' st else st"
  obtain o1 tr1 where r1: "internalDumpT D (fst kv) (Some parent) ?s0 = (o1, tr1)"
    by (metis prod.exhaust)
  then have e1: "internalDump D (fst kv) (Some parent) ?s0 = o1"
    using "13.IH"(1) by simp
  show ?case
  proof (cases o1)
    case (Returned st1)
    obtain o2 tr2 where r2: "internalDumpT D (snd kv) (Some parent) (push_back CHR '':'' st1) = (o2, tr2)"
      by (metis prod.exhaust)
    then have e2: "internalDump D (snd kv) (Some parent) (push_back CHR '':'' st1) = o2"
      using "13.IH"(2) [OF r1 [symmetric] Returned] by simp
    show ?thesis
    proof (cases o2)
      case R2: (Returned st2)
      have "fst (objectCompactT D parent kvs (i + 1) n st2) = objectCompact D parent kvs (i + 1) n st2"
        by (rule "13.IH"(3) [OF r1 [symmetric] Returned r2 [symmetric] R2])
      then show ?thesis using Returned R2 r1 e1 r2 e2 by (auto split: prod.splits)
    next
      case T2: (Thrown e st2)
      then show ?thesis using Returned r1 e1 r2 e2 by simp
    qed
  next
    case (Thrown e st1)
    then show ?thesis using r1 e1 by simp
  qed
qed simp_all

lemma run_callbackT_Some:
  assumes "callback D = Some cb"
  shows "run_callbackT D s parent st
           = ((fst (cb (buffer st) s parent), st\<lparr>buffer := snd (cb (buffer st) s parent)\<rparr>),
              [(buffer st, s, parent)])"
  using assms by (simp add: run_callbackT_def split: prod.splits)

lemma visits_trace:
  "\<lbrakk>callback D = Some cb; \<forall>b n p. fst (cb b n p) = h n p;
    internalDumpT D s parent st = (Returned st', tr)\<rbrakk>
   \<Longrightarrow> map snd tr = visits h s parent"
  "\<lbrakk>callback D = Some cb; \<forall>b n p. fst (cb b n p) = h n p;
    dumpByTypeT D s st = (Returned st', tr)\<rbrakk>
   \<Longrightarrow> map snd tr = below h s"
  "\<lbrakk>callback D = Some cb; \<forall>b n p. fst (cb b n p) = h n p;
    arrayPrettyT D par xs i n st = (Returned st', tr)\<rbrakk>
   \<Longrightarrow> map snd tr = visits_list h (Some par) xs"
  "\<lbrakk>callback D = Some cb; \<forall>b n p. fst (cb b n p) = h n p;
    arrayCompactT D par xs i n st = (Returned st', tr)\<rbrakk>
   \<Longrightarrow> map snd tr = visits_list h (Some par) xs"
  "\<lbrakk>callback D = Some cb; \<forall>b n p. fst (cb b n p) = h n p;
    objectPrettyT D par kvs i n st = (Returned st', tr)\<rbrakk>
   \<Longrightarrow> map snd tr = visits_members h (Some par) kvs"
  "\<lbrakk>callback D = Some cb; \<forall>b n p. fst (cb b n p) = h n p;
    objectCompactT D par kvs i n st = (Returned st', tr)\<rbrakk>
   \<Longrightarrow> map snd tr = visits_members h (Some par) kvs"
proof (induction D s parent st and D s st and D par xs i n st and D par xs i n st
         and D par kvs i n st and D par kvs i n st
       arbitrary: st' tr and st' tr and st' tr and st' tr and st' tr and st' tr
       rule: dumpT_induct)
  case (1 D s parent st)
  let ?v = "cb (buffer st) s parent"
  let ?st1 = "st\<lparr>buffer := snd ?v\<rparr>"
  have rt: "run_callbackT D s parent st = ((fst ?v, ?st1), [(buffer st, s, parent)])"
    by (rule run_callbackT_Some) fact
  have hv: "fst ?v = h s parent" using "1.prems"(2) by simp
  show ?case
  proof (cases "h s parent")
    case True
    then show ?thesis using "1.prems"(3) hv by (auto simp: internalDumpT.simps rt)
  next
    case False
    then obtain tr1 where d: "dumpByTypeT D s ?st1 = (Returned st', tr1)"
      and t: "tr = (buffer st, s, parent) # tr1"
      using "1.prems"(3) hv by (auto simp: internalDumpT.simps rt split: prod.splits)
    have "map snd tr1 = below h s"
      by (rule "1.IH" [OF rt [symmetric] refl _ "1.prems"(1,2) d]) (simp add: hv False)
    then show ?thesis using False t by simp
  qed
next
  case (2 D xs st)
  show ?case
  proof (cases "PrettyPrint D")
    case True
    from "2.prems"(3) True obtain st1 where
      "arrayPrettyT D (JArray xs) xs 0 (length xs)
         (push_back CHR 0x0A (push_back CHR ''['' st)\<lparr>indentation := indentation st + 1\<rparr>)
       = (Returned st1, tr)"
      by (auto simp: Let_def split: prod.splits outcome.splits)
    from "2.IH"(1) [OF refl True "2.prems"(1,2) this] show ?thesis by simp
  next
    case False
    from "2.prems"(3) False obtain st1 where
      "arrayCompactT D (JArray xs) xs 0 (length xs) (push_back CHR ''['' st) = (Returned st1, tr)"
      by (auto simp: Let_def split: prod.splits outcome.splits)
    from "2.IH"(2) [OF refl False "2.prems"(1,2) this] show ?thesis by simp
  qed
next
  case (3 D kvs st)
  show ?case
  proof (cases "PrettyPrint D")
    case True
    from "3.prems"(3) True obtain st1 where
      "objectPrettyT D (JObject kvs) kvs 0 (length kvs)
         (push_back CHR 0x0A (push_back CHR ''{'' st)\<lparr>indentation := indentation st + 1\<rparr>)
       = (Returned st1, tr)"
      by (auto simp: Let_def split: prod.splits outcome.splits)
    from "3.IH"(1) [OF refl True "3.prems"(1,2) this] show ?thesis by simp
  next
    case False
    from "3.prems"(3) False obtain st1 where
      "objectCompactT D (JObject kvs) kvs 0 (length kvs) (push_back CHR ''{'' st) = (Returned st1, tr)"
      by (auto simp: Let_def split: prod.splits outcome.splits)
    from "3.IH"(2) [OF refl False "3.prems"(1,2) this] show ?thesis by simp
  qed
next
  case (4 D ext st)
  from "4.IH" [OF "4.prems"(1,2)] "4.prems"(3) show ?case by simp
next
  case (7 D parent x xs i n st)
  from "7.prems"(3) obtain st1 tr1 tr2
    where r1: "internalDumpT D x (Some parent) (indent st) = (Returned st1, tr1)"
      and r2: "arrayPrettyT D parent xs (i + 1) n
                 (push_back CHR 0x0A (if i + 1 \<noteq> n then push_back CHR '','' st1 else st1))
               = (Returned st', tr2)"
      and t: "tr = tr1 @ tr2"
    by (auto split: prod.splits outcome.splits)
  have "map snd tr1 = visits h x (Some parent)"
    by (rule "7.IH"(1) [OF "7.prems"(1,2) r1])
  moreover have "map snd tr2 = visits_list h (Some parent) xs"
    by (rule "7.IH"(2) [OF r1 [symmetric] refl "7.prems"(1,2) r2])
  ultimately show ?case using t by simp
next
  case (9 D parent x xs i n st)
  from "9.prems"(3) obtain st1 tr1 tr2
    where r1: "internalDumpT D x (Some parent) (if 0 < i then push_back CHR '','' st else st)
               = (Returned st1, tr1)"
      and r2: "arrayCompactT D parent xs (i + 1) n st1 = (Returned st', tr2)"
      and t: "tr = tr1 @ tr2"
    by (auto split: prod.splits outcome.splits)
  have "map snd tr1 = visits h x (Some parent)"
    by (rule "9.IH"(1) [OF "9.prems"(1,2) r1])
  moreover have "map snd tr2 = visits_list h (Some parent) xs"
    by (rule "9.IH"(2) [OF r1 [symmetric] refl "9.prems"(1,2) r2])
  ultimately show ?case using t by simp
next
  case (11 D parent kv kvs i n st)
  from "11.prems"(3) obtain st1 st2 tr1 tr2 tr3
    where r1: "internalDumpT D (fst kv) (Some parent) (indent st) = (Returned st1, tr1)"
      and r2: "internalDumpT D (snd kv) (Some parent) (append '' : '' st1) = (Returned st2, tr2)"
      and r3: "objectPrettyT D parent kvs (i + 1) n
                 (push_back CHR 0x0A (if i + 1 \<noteq> n then push_back CHR '','' st2 else st2))
               = (Returned st', tr3)"
      and t: "tr = tr1 @ tr2 @ tr3"
    by (auto split: prod.splits outcome.splits)
  have "map snd tr1 = visits h (fst kv) (Some parent)"
    by (rule "11.IH"(1) [OF "11.prems"(1,2) r1])
  moreover have "map snd tr2 = visits h (snd kv) (Some parent)"
    by (rule "11.IH"(2) [OF r1 [symmetric] refl "11.prems"(1,2) r2])
  moreover have "map snd tr3 = visits_members h (Some parent) kvs"
    by (rule "11.IH"(3) [OF r1 [symmetric] refl r2 [symmetric] refl "11.prems"(1,2) r3])
  ultimately show ?case using t by (cases kv) simp
next
  case (13 D parent kv kvs i n st)
  from "13.prems"(3) obtain st1 st2 tr1 tr2 tr3
    where r1: "internalDumpT D (fst kv) (Some parent) (if 0 < i then push_back CHR '','' st else st)
               = (Returned st1, tr1)"
      and r2: "internalDumpT D (snd kv) (Some parent) (push_back CHR '':'' st1) = (Returned st2, tr2)"
      and r3: "objectCompactT D parent kvs (i + 1) n st2 = (Returned st', tr3)"
      and t: "tr = tr1 @ tr2 @ tr3"
    by (auto split: prod.splits outcome.splits)
  have "map snd tr1 = visits h (fst kv) (Some parent)"
    by (rule "13.IH"(1) [OF "13.prems"(1,2) r1])
  moreover have "map snd tr2 = visits h (snd kv) (Some parent)"
    by (rule "13.IH"(2) [OF r1 [symmetric] refl "13.prems"(1,2) r2])
  moreover have "map snd tr3 = visits_members h (Some parent) kvs"
    by (rule "13.IH"(3) [OF r1 [symmetric] refl r2 [symmetric] refl "13.prems"(1,2) r3])
  ultimately show ?case using t by (cases kv) simp
qed auto

text \<open>
  C8.  When a callback is set, every dump of a node begins with a call of the callback on the
  buffer as it is at that moment, the node and its parent, before anything is written for the
  node.  When the call returns \<open>true\<close> the dump of the node returns at once: no further call
  is made, the buffer is as the callback left it and the indentation is unchanged.  When the
  verdict of the callback depends on the node and its parent only, the calls of a dump that
  returns are, in order, the nodes of the document with their parents, without the nodes
  below one the callback has taken over.
\<close>

theorem callback_consulted:
  assumes "callback D = Some cb"
  shows "(cb (buffer st) s parent = (True, b) \<longrightarrow>
            internalDump D s parent st = Returned (st\<lparr>buffer := b\<rparr>)
            \<and> internalDumpT D s parent st
                = (Returned (st\<lparr>buffer := b\<rparr>), [(buffer st, s, parent)]))
       \<and> fst (internalDumpT D s parent st) = internalDump D s parent st
       \<and> snd (internalDumpT D s parent st) \<noteq> []
       \<and> hd (snd (internalDumpT D s parent st)) = (buffer st, s, parent)
       \<and> ((\<forall>b n p. fst (cb b n p) = h n p) \<longrightarrow>
            internalDumpT D s parent st = (Returned st', tr) \<longrightarrow>
            map snd tr = visits h s parent)"
proof -
  have rt: "run_callbackT D s parent st
              = ((fst (cb (buffer st) s parent), st\<lparr>buffer := snd (cb (buffer st) s parent)\<rparr>),
                 [(buffer st, s, parent)])"
    by (rule run_callbackT_Some) fact
  have a: "internalDumpT D s parent st = (Returned (st\<lparr>buffer := b\<rparr>), [(buffer st, s, parent)])"
    if "cb (buffer st) s parent = (True, b)"
    using that by (simp add: internalDumpT.simps rt)
  have b: "internalDump D s parent st = Returned (st\<lparr>buffer := b\<rparr>)"
    if "cb (buffer st) s parent = (True, b)"
    using a [OF that] erase_trace(1) [of D s parent st] by simp
  have c: "snd (internalDumpT D s parent st) \<noteq> []
           \<and> hd (snd (internalDumpT D s parent st)) = (buffer st, s, parent)"
    by (cases "fst (cb (buffer st) s parent)")
       (simp_all add: internalDumpT.simps rt split: prod.splits)
  have d: "map snd tr = visits h s parent"
    if "\<forall>b n p. fst (cb b n p) = h n p" and "internalDumpT D s parent st = (Returned st', tr)"
    by (rule visits_trace(1) [OF assms that])
  show ?thesis using a b c d erase_trace(1) [of D s parent st] by blast
qed

theorem callback_consulted_witness:
  "internalDumpT
     \<lparr>PrettyPrint = False, fpconv_dtoa = (\<lambda>v. []), strategy = StrategyFail,
      callback = Some (\<lambda>b n p. (n = JNull, b @ ''#''))\<rparr>
     (JArray [JNull, JExternal (JBool True)]) None \<lparr>buffer = [], indentation = 0\<rparr>
   = (Returned \<lparr>buffer = ''#[#,##true]'', indentation = 0\<rparr>,
      [([], JArray [JNull, JExternal (JBool True)], None),
       (''#['', JNull, Some (JArray [JNull, JExternal (JBool True)])),
       (''#[#,'', JExternal (JBool True), Some (JArray [JNull, JExternal (JBool True)])),
       (''#[#,#'', JBool True, None)])
   \<and> visits (\<lambda>n p. n = JNull) (JArray [JNull, JExternal (JBool True)]) None
     = [(JArray [JNull, JExternal (JBool True)], None),
        (JNull, Some (JArray [JNull, JExternal (JBool True)])),
        (JExternal (JBool True), Some (JArray [JNull, JExternal (JBool True)])),
        (JBool True, None)]
   \<and> internalDump
     \<lparr>PrettyPrint = False, fpconv_dtoa = (\<lambda>v. []), strategy = StrategyFail,
      callback = Some (\<lambda>b n p. (n = JNull, b @ ''#''))\<rparr>
     JNull (Some (JArray [JNull, JExternal (JBool True)])) \<lparr>buffer = ''#['', indentation = 0\<rparr>
   = Returned \<lparr>buffer = ''#[#'', indentation = 0\<rparr>"
proof -
  let ?cb = "\<lambda>(b::string) (n::slice) (p::slice option). (n = JNull, b @ ''#'')"
  let ?D = "\<lparr>PrettyPrint = False, fpconv_dtoa = (\<lambda>v. []), strategy = StrategyFail,
             callback = Some ?cb\<rparr>"
  let ?s = "JArray [JNull, JExternal (JBool True)]"
  let ?tr = "[([], ?s, None), (''#['', JNull, Some ?s), (''#[#,'', JExternal (JBool True), Some ?s),
              (''#[#,#'', JBool True, None)]"
  have a: "callback ?D = Some ?cb" by simp
  have v: "\<forall>b n p. fst (?cb b n p) = (\<lambda>n p. n = JNull) n p" by simp
  have r: "internalDumpT ?D ?s None \<lparr>buffer = [], indentation = 0\<rparr>
             = (Returned \<lparr>buffer = ''#[#,##true]'', indentation = 0\<rparr>, ?tr)"
    by code_simp
  have k: "?cb (buffer \<lparr>buffer = ''#['', indentation = 0\<rparr>) JNull (Some ?s) = (True, ''#[#'')"
    by simp
  from callback_consulted [OF a, where st = "\<lparr>buffer = [], indentation = 0\<rparr>" and s = ?s
         and parent = None and h = "\<lambda>n p. n = JNull"
         and st' = "\<lparr>buffer = ''#[#,##true]'', indentation = 0\<rparr>" and tr = ?tr] v r
  have 1: "map snd ?tr = visits (\<lambda>n p. n = JNull) ?s None" by blast
  from callback_consulted [OF a, where st = "\<lparr>buffer = ''#['', indentation = 0\<rparr>" and s = JNull
         and parent = "Some ?s" and b = "''#[#''"] k
  have 2: "internalDump ?D JNull (Some ?s) \<lparr>buffer = ''#['', indentation = 0\<rparr>
             = Returned (\<lparr>buffer = ''#['', indentation = 0\<rparr>\<lparr>buffer := ''#[#''\<rparr>)"
    by blast
  from 1 2 r show ?thesis by simp
qed

end
